theory Spec2Isabelle
  imports Complex_Main "HOL-Library.Sublist" "HOL-Library.Multiset"
begin

section \<open>Strings\<close>

text \<open>
  Python strings are modelled as \<open>string\<close> (lists of 8-bit characters), so the model speaks
  about ASCII text. \<open>str.lower\<close> maps \<open>A..Z\<close> to \<open>a..z\<close> and leaves every other
  character alone.
\<close>

definition lower_char :: "char \<Rightarrow> char" where
  "lower_char c =
     (case map_of (zip ''ABCDEFGHIJKLMNOPQRSTUVWXYZ'' ''abcdefghijklmnopqrstuvwxyz'') c of
        Some l \<Rightarrow> l
      | None \<Rightarrow> c)"

definition lower :: "string \<Rightarrow> string" where
  "lower s = map lower_char s"

text \<open>\<open>startswith p s\<close> is \<open>s.startswith(p)\<close>; \<open>contains q s\<close> is the Python test \<open>q in s\<close>.\<close>

fun startswith :: "'a list \<Rightarrow> 'a list \<Rightarrow> bool" where
  "startswith [] s = True"
| "startswith (x # xs) [] = False"
| "startswith (x # xs) (y # ys) = (x = y \<and> startswith xs ys)"

fun contains :: "'a list \<Rightarrow> 'a list \<Rightarrow> bool" where
  "contains q [] = (q = [])"
| "contains q (y # ys) = (startswith q (y # ys) \<or> contains q ys)"

text \<open>
  \<open>str.split()\<close> without arguments: the maximal runs of non-whitespace characters, in
  order. The ASCII whitespace characters of Python are 9..13, 28..31 and 32.
\<close>

definition is_space :: "char \<Rightarrow> bool" where
  "is_space c =
     (c \<in> set [CHR 0x09, CHR 0x0A, CHR 0x0B, CHR 0x0C, CHR 0x0D,
                 CHR 0x1C, CHR 0x1D, CHR 0x1E, CHR 0x1F, CHR 0x20])"

fun split_from :: "string \<Rightarrow> string \<Rightarrow> string list" where
  "split_from cur [] = (if cur = [] then [] else [cur])"
| "split_from cur (c # cs) =
     (if is_space c
      then (if cur = [] then split_from [] cs else cur # split_from [] cs)
      else split_from (cur @ [c]) cs)"

definition split :: "string \<Rightarrow> string list" where
  "split s = split_from [] s"

section \<open>Paths\<close>

text \<open>
  A \<open>pathlib.Path\<close> is the list of its components below the root: \<open>/home/u/a.txt\<close> is
  \<open>[''home'', ''u'', ''a.txt'']\<close>. Two paths are equal when their components are; nothing
  in the program resolves symbolic links or \<open>..\<close> components.
\<close>

type_synonym path = "string list"

definition name :: "path \<Rightarrow> string" where
  "name p = (if p = [] then [] else last p)"

definition parent :: "path \<Rightarrow> path" where
  "parent p = butlast p"

definition joinpath :: "path \<Rightarrow> string \<Rightarrow> path" where
  "joinpath p s = p @ [s]"

fun str :: "path \<Rightarrow> string" where
  "str [] = ''/''"
| "str [c] = CHR ''/'' # c"
| "str (c # cs) = CHR ''/'' # c @ str cs"

text \<open>
  \<open>rfind_dot s\<close> is \<open>s.rfind('.')\<close> (\<open>None\<close> for -1); \<open>path_suffix\<close> is \<open>Path.suffix\<close>: the
  part of the name from its last dot, when that dot is neither the first nor the last
  character of the name.
\<close>

fun rfind_dot :: "string \<Rightarrow> nat option" where
  "rfind_dot [] = None"
| "rfind_dot (c # cs) =
     (case rfind_dot cs of
        Some i \<Rightarrow> Some (Suc i)
      | None \<Rightarrow> if c = CHR ''.'' then Some 0 else None)"

definition path_suffix :: "path \<Rightarrow> string" where
  "path_suffix p =
     (case rfind_dot (name p) of
        None \<Rightarrow> []
      | Some i \<Rightarrow> if 0 < i \<and> i + 1 < length (name p) then drop i (name p) else [])"

section \<open>Categories\<close>

datatype category =
  Images | Documents | Spreadsheets | Presentations | Audio | Video | Archives | Code | Data
  | Other

text \<open>The dictionary \<open>file_categories\<close>, in its insertion order.\<close>

definition file_categories :: "(category \<times> string list) list" where
  "file_categories =
     [(Images, [''.jpg'', ''.jpeg'', ''.png'', ''.gif'', ''.bmp'', ''.tiff'', ''.webp'', ''.svg'']),
      (Documents, [''.pdf'', ''.doc'', ''.docx'', ''.txt'', ''.md'', ''.rtf'', ''.odt'']),
      (Spreadsheets, [''.xls'', ''.xlsx'', ''.csv'', ''.ods'']),
      (Presentations, [''.ppt'', ''.pptx'', ''.odp'']),
      (Audio, [''.mp3'', ''.wav'', ''.flac'', ''.aac'', ''.ogg'', ''.m4a'']),
      (Video, [''.mp4'', ''.avi'', ''.mkv'', ''.mov'', ''.wmv'', ''.flv'', ''.webm'']),
      (Archives, [''.zip'', ''.rar'', ''.7z'', ''.tar'', ''.gz'', ''.bz2'']),
      (Code, [''.py'', ''.js'', ''.html'', ''.css'', ''.cpp'', ''.java'', ''.php'', ''.rb'']),
      (Data, [''.json'', ''.xml'', ''.yaml'', ''.sql'', ''.db'', ''.sqlite''])]"

fun categorize_in :: "(category \<times> string list) list \<Rightarrow> string \<Rightarrow> category" where
  "categorize_in [] extension = Other"
| "categorize_in ((category, extensions) # rest) extension =
     (if extension \<in> set extensions then category else categorize_in rest extension)"

definition categorize_file :: "path \<Rightarrow> category" where
  "categorize_file file_path = categorize_in file_categories (lower (path_suffix file_path))"

section \<open>The file system\<close>

text \<open>
  What the program observes of the file system during one call. Sizes are in bytes, and
  are Python integers. Times
  are local wall-clock instants in microseconds, the resolution of \<open>datetime\<close>; one call
  reads the clock once (\<open>now\<close>). \<open>stat\<close> is \<open>None\<close> when \<open>Path.stat()\<close> raises
  \<open>OSError\<close>, \<open>read_text\<close> is \<open>None\<close> when opening or reading the file raises, and is
  the decoded text otherwise. \<open>rglob\<close> and \<open>iterdir\<close> give the listing of a directory in
  the order the library yields it; \<open>is_file\<close> answers \<open>False\<close> where it cannot tell.
\<close>

record stat_result =
  st_size :: int
  st_mtime :: int

record filesystem =
  exists :: "path \<Rightarrow> bool"
  rglob :: "path \<Rightarrow> path list"
  iterdir :: "path \<Rightarrow> path list"
  is_file :: "path \<Rightarrow> bool"
  stat :: "path \<Rightarrow> stat_result option"
  read_text :: "path \<Rightarrow> string option"

datatype error = OSError | ValueError | KeyError | IndexError

definition day :: int where
  "day = 86400000000"

section \<open>Search strategies\<close>

text \<open>
  The five strategies share one loop: for every search directory that exists, for every
  path of its recursive listing, run the body. The body of a loop may raise; the loop then
  stops with that error, as the exception leaves the Python function.
\<close>

fun for_each_file :: "(path \<Rightarrow> 's \<Rightarrow> error + 's) \<Rightarrow> path list \<Rightarrow> 's \<Rightarrow> error + 's" where
  "for_each_file body [] s = Inr s"
| "for_each_file body (file_path # rest) s =
     (case body file_path s of
        Inl e \<Rightarrow> Inl e
      | Inr s' \<Rightarrow> for_each_file body rest s')"

fun for_each_dir ::
  "filesystem \<Rightarrow> (path \<Rightarrow> path \<Rightarrow> 's \<Rightarrow> error + 's) \<Rightarrow> path list \<Rightarrow> 's \<Rightarrow> error + 's" where
  "for_each_dir fs body [] s = Inr s"
| "for_each_dir fs body (search_dir # dirs) s =
     (if exists fs search_dir
      then (case for_each_file (body search_dir) (rglob fs search_dir) s of
              Inl e \<Rightarrow> Inl e
            | Inr s' \<Rightarrow> for_each_dir fs body dirs s')
      else for_each_dir fs body dirs s)"

text \<open>\<open>if test: results.append(file_path)\<close>, where evaluating the test may raise.\<close>

definition append_if :: "error + bool \<Rightarrow> path \<Rightarrow> path list \<Rightarrow> error + path list" where
  "append_if test file_path results =
     (case test of
        Inl e \<Rightarrow> Inl e
      | Inr matched \<Rightarrow> Inr (if matched then results @ [file_path] else results))"

subsection \<open>Filename\<close>

definition filename_test :: "filesystem \<Rightarrow> string \<Rightarrow> path \<Rightarrow> error + bool" where
  "filename_test fs query file_path =
     (if is_file fs file_path
      then (case stat fs file_path of
              None \<Rightarrow> Inl OSError
            | Some st \<Rightarrow> Inr (st_size st > 0 \<and> contains query (lower (name file_path))))
      else Inr False)"

definition search_by_filename :: "filesystem \<Rightarrow> string \<Rightarrow> path list \<Rightarrow> error + path list" where
  "search_by_filename fs query search_dirs =
     for_each_dir fs (\<lambda>search_dir file_path. append_if (filename_test fs query file_path) file_path)
       search_dirs []"

subsection \<open>Content keywords\<close>

definition text_extensions :: "string list" where
  "text_extensions = [''.txt'', ''.md'', ''.py'', ''.js'', ''.html'', ''.css'', ''.json'']"

text \<open>
  The state of this loop is the pair of \<open>results\<close> and the list of the files on which
  \<open>open\<close> has been called, so that what the strategy reads can be stated.
\<close>

definition content_body ::
  "filesystem \<Rightarrow> string \<Rightarrow> path \<Rightarrow> path list \<times> path list \<Rightarrow> error + path list \<times> path list" where
  "content_body fs query file_path s =
     (case s of (results, opened) \<Rightarrow>
        if is_file fs file_path \<and> lower (path_suffix file_path) \<in> set text_extensions
        then (case stat fs file_path of
                None \<Rightarrow> Inl OSError
              | Some st \<Rightarrow>
                  if st_size st > 0 \<and> st_size st < 1024 * 1024
                  then (case read_text fs file_path of
                          None \<Rightarrow> Inr (results, opened @ [file_path])
                        | Some content \<Rightarrow>
                            Inr (if contains query (lower content)
                                 then results @ [file_path] else results,
                                 opened @ [file_path]))
                  else Inr (results, opened))
        else Inr (results, opened))"

definition search_by_content_keywords_io ::
  "filesystem \<Rightarrow> string \<Rightarrow> path list \<Rightarrow> error + path list \<times> path list" where
  "search_by_content_keywords_io fs query search_dirs =
     for_each_dir fs (\<lambda>search_dir. content_body fs query) search_dirs ([], [])"

definition search_by_content_keywords ::
  "filesystem \<Rightarrow> string \<Rightarrow> path list \<Rightarrow> error + path list" where
  "search_by_content_keywords fs query search_dirs =
     (case search_by_content_keywords_io fs query search_dirs of
        Inl e \<Rightarrow> Inl e
      | Inr (results, opened) \<Rightarrow> Inr results)"

subsection \<open>File type\<close>

text \<open>The dictionary \<open>type_keywords\<close>, in its insertion order.\<close>

definition type_keywords :: "(string \<times> category) list" where
  "type_keywords =
     [(''photo'', Images), (''picture'', Images), (''image'', Images),
      (''document'', Documents), (''doc'', Documents), (''text'', Documents),
      (''music'', Audio), (''song'', Audio), (''audio'', Audio),
      (''video'', Video), (''movie'', Video),
      (''code'', Code), (''script'', Code), (''program'', Code)]"

fun target_category_loop :: "(string \<times> category) list \<Rightarrow> string \<Rightarrow> category option" where
  "target_category_loop [] query = None"
| "target_category_loop ((keyword, category) # rest) query =
     (if contains keyword query then Some category else target_category_loop rest query)"

definition file_type_test :: "filesystem \<Rightarrow> string list \<Rightarrow> path \<Rightarrow> error + bool" where
  "file_type_test fs extensions file_path =
     (if is_file fs file_path \<and> lower (path_suffix file_path) \<in> set extensions
      then (case stat fs file_path of
              None \<Rightarrow> Inl OSError
            | Some st \<Rightarrow> Inr (st_size st > 0))
      else Inr False)"

definition search_by_file_type :: "filesystem \<Rightarrow> string \<Rightarrow> path list \<Rightarrow> error + path list" where
  "search_by_file_type fs query search_dirs =
     (case target_category_loop type_keywords query of
        None \<Rightarrow> Inr []
      | Some target_category \<Rightarrow>
          (case map_of file_categories target_category of
             None \<Rightarrow> Inl KeyError
           | Some extensions \<Rightarrow>
               for_each_dir fs
                 (\<lambda>search_dir file_path. append_if (file_type_test fs extensions file_path) file_path)
                 search_dirs []))"

subsection \<open>Date context\<close>

definition recent_test :: "filesystem \<Rightarrow> int \<Rightarrow> path \<Rightarrow> error + bool" where
  "recent_test fs cutoff_date file_path =
     (if is_file fs file_path
      then (case stat fs file_path of
              None \<Rightarrow> Inl OSError
            | Some st \<Rightarrow> Inr (st_size st > 0 \<and> st_mtime st > cutoff_date))
      else Inr False)"

definition old_test :: "filesystem \<Rightarrow> int \<Rightarrow> path \<Rightarrow> error + bool" where
  "old_test fs cutoff_date file_path =
     (if is_file fs file_path
      then (case stat fs file_path of
              None \<Rightarrow> Inl OSError
            | Some st \<Rightarrow> Inr (st_size st > 0 \<and> st_mtime st < cutoff_date))
      else Inr False)"

definition search_by_date_context ::
  "filesystem \<Rightarrow> int \<Rightarrow> string \<Rightarrow> path list \<Rightarrow> error + path list" where
  "search_by_date_context fs now query search_dirs =
     (if list_ex (\<lambda>word. contains word query) [''today'', ''recent'', ''new'', ''latest'']
      then (let cutoff_date = now - 7 * day
            in for_each_dir fs
                 (\<lambda>search_dir file_path. append_if (recent_test fs cutoff_date file_path) file_path)
                 search_dirs [])
      else if list_ex (\<lambda>word. contains word query) [''old'', ''archive'', ''backup'']
      then (let cutoff_date = now - 90 * day
            in for_each_dir fs
                 (\<lambda>search_dir file_path. append_if (old_test fs cutoff_date file_path) file_path)
                 search_dirs [])
      else Inr [])"

subsection \<open>Size context\<close>

definition large_test :: "filesystem \<Rightarrow> int \<Rightarrow> path \<Rightarrow> error + bool" where
  "large_test fs size_threshold file_path =
     (if is_file fs file_path
      then (case stat fs file_path of
              None \<Rightarrow> Inl OSError
            | Some st \<Rightarrow> Inr (st_size st > size_threshold))
      else Inr False)"

definition small_test :: "filesystem \<Rightarrow> int \<Rightarrow> path \<Rightarrow> error + bool" where
  "small_test fs size_threshold file_path =
     (if is_file fs file_path
      then (case stat fs file_path of
              None \<Rightarrow> Inl OSError
            | Some st \<Rightarrow> Inr (0 < st_size st \<and> st_size st < size_threshold))
      else Inr False)"

definition search_by_size_context :: "filesystem \<Rightarrow> string \<Rightarrow> path list \<Rightarrow> error + path list" where
  "search_by_size_context fs query search_dirs =
     (if list_ex (\<lambda>word. contains word query) [''large'', ''big'', ''huge'']
      then (let size_threshold = 10 * 1024 * 1024
            in for_each_dir fs
                 (\<lambda>search_dir file_path. append_if (large_test fs size_threshold file_path) file_path)
                 search_dirs [])
      else if list_ex (\<lambda>word. contains word query) [''small'', ''tiny'']
      then (let size_threshold = 100 * 1024
            in for_each_dir fs
                 (\<lambda>search_dir file_path. append_if (small_test fs size_threshold file_path) file_path)
                 search_dirs [])
      else Inr [])"

section \<open>Learned preferences\<close>

record preference =
  preferred_location :: string
  confidence :: rat
  learned_on :: int

type_synonym preferences = "category \<rightharpoonup> preference"

section \<open>Ranking\<close>

text \<open>
  Scores are Python floats; they are modelled as rationals. The constants 10, 5, 2, 1 and
  0.5 and their sums are exact in both.
\<close>

fun word_loop :: "string list \<Rightarrow> string \<Rightarrow> rat \<Rightarrow> rat" where
  "word_loop [] filename_lower score = score"
| "word_loop (word # query_words) filename_lower score =
     word_loop query_words filename_lower
       (if contains word filename_lower then score + 2 else score)"

definition name_score :: "string \<Rightarrow> path \<Rightarrow> rat" where
  "name_score query file_path =
     (let filename_lower = lower (name file_path);
          score = (if query = filename_lower then 10
                   else if contains query filename_lower then 5 else 0)
      in word_loop (split query) filename_lower score)"

definition recent_bonus :: "int \<Rightarrow> stat_result \<Rightarrow> rat \<Rightarrow> rat" where
  "recent_bonus now st score =
     (let days_old = (now - st_mtime st) div day
      in if days_old < 7 then score + 1 else if days_old < 30 then score + 1 / 2 else score)"

definition location_bonus :: "preferences \<Rightarrow> path \<Rightarrow> rat \<Rightarrow> rat" where
  "location_bonus prefs file_path score =
     (case prefs (categorize_file file_path) of
        None \<Rightarrow> score
      | Some pref \<Rightarrow>
          if contains (preferred_location pref) (str (parent file_path))
          then score + confidence pref else score)"

text \<open>The body of the loop of \<open>rank_search_results\<close> for one file (command-line engine).\<close>

definition score_file :: "filesystem \<Rightarrow> preferences \<Rightarrow> int \<Rightarrow> string \<Rightarrow> path \<Rightarrow> error + rat" where
  "score_file fs prefs now query file_path =
     (case stat fs file_path of
        None \<Rightarrow> Inl OSError
      | Some st \<Rightarrow>
          Inr (location_bonus prefs file_path (recent_bonus now st (name_score query file_path))))"

fun rank_loop ::
  "filesystem \<Rightarrow> preferences \<Rightarrow> int \<Rightarrow> string \<Rightarrow> path list \<Rightarrow> (path \<times> rat) list
     \<Rightarrow> error + (path \<times> rat) list" where
  "rank_loop fs prefs now query [] scored_files = Inr scored_files"
| "rank_loop fs prefs now query (file_path # files) scored_files =
     (case score_file fs prefs now query file_path of
        Inl e \<Rightarrow> Inl e
      | Inr score \<Rightarrow>
          rank_loop fs prefs now query files
            (if score > 0 then scored_files @ [(file_path, score)] else scored_files))"

text \<open>
  \<open>sorted(xs, key=lambda x: x[1], reverse=True)\<close>: a stable sort into descending order
  of the score, entries of equal score staying in their order.
\<close>

definition sorted_by_score_reverse :: "(path \<times> rat) list \<Rightarrow> (path \<times> rat) list" where
  "sorted_by_score_reverse xs = sort_key (\<lambda>x. - snd x) xs"

definition rank_search_results ::
  "filesystem \<Rightarrow> preferences \<Rightarrow> int \<Rightarrow> path list \<Rightarrow> string \<Rightarrow> error + (path \<times> rat) list" where
  "rank_search_results fs prefs now files query =
     (case rank_loop fs prefs now query files [] of
        Inl e \<Rightarrow> Inl e
      | Inr scored_files \<Rightarrow> Inr (sorted_by_score_reverse scored_files))"

subsection \<open>The ranker of the web service\<close>

text \<open>
  \<open>_rank_search_results\<close> of the web service has no preference table, and it reads the
  modification time inside \<open>try\<close> ... \<open>except: pass\<close>: a failing \<open>stat\<close> leaves the
  score without the bonus for recent files.
\<close>

definition api_score_file :: "filesystem \<Rightarrow> int \<Rightarrow> string \<Rightarrow> path \<Rightarrow> rat" where
  "api_score_file fs now query file_path =
     (let score = name_score query file_path
      in case stat fs file_path of
           None \<Rightarrow> score
         | Some st \<Rightarrow> recent_bonus now st score)"

fun api_rank_loop ::
  "filesystem \<Rightarrow> int \<Rightarrow> string \<Rightarrow> path list \<Rightarrow> (path \<times> rat) list \<Rightarrow> (path \<times> rat) list" where
  "api_rank_loop fs now query [] scored_files = scored_files"
| "api_rank_loop fs now query (file_path # files) scored_files =
     (let score = api_score_file fs now query file_path
      in api_rank_loop fs now query files
           (if score > 0 then scored_files @ [(file_path, score)] else scored_files))"

definition api_rank_search_results ::
  "filesystem \<Rightarrow> int \<Rightarrow> path list \<Rightarrow> string \<Rightarrow> (path \<times> rat) list" where
  "api_rank_search_results fs now files query =
     sorted_by_score_reverse (api_rank_loop fs now query files [])"

section \<open>Smart search\<close>

definition default_dirs :: "path \<Rightarrow> path list" where
  "default_dirs home =
     [joinpath home ''Documents'', joinpath home ''Pictures'', joinpath home ''Downloads'',
      joinpath home ''Desktop'', joinpath home ''Music'', joinpath home ''Videos'']"

text \<open>
  \<open>for strategy in search_strategies: found_files.extend(strategy(query_lower, search_dirs))\<close>.
\<close>

fun extend_all :: "(error + path list) list \<Rightarrow> path list \<Rightarrow> error + path list" where
  "extend_all [] found_files = Inr found_files"
| "extend_all (strategy_results # rest) found_files =
     (case strategy_results of
        Inl e \<Rightarrow> Inl e
      | Inr results \<Rightarrow> extend_all rest (found_files @ results))"

definition run_strategies ::
  "filesystem \<Rightarrow> int \<Rightarrow> string \<Rightarrow> path list \<Rightarrow> error + path list" where
  "run_strategies fs now query_lower search_dirs =
     extend_all
       [search_by_filename fs query_lower search_dirs,
        search_by_content_keywords fs query_lower search_dirs,
        search_by_file_type fs query_lower search_dirs,
        search_by_date_context fs now query_lower search_dirs,
        search_by_size_context fs query_lower search_dirs] []"

text \<open>Removing duplicates: the command-line engine keeps a set of the paths seen.\<close>

fun unique_loop :: "path list \<Rightarrow> path list \<Rightarrow> path set \<Rightarrow> path list" where
  "unique_loop [] unique_files seen = unique_files"
| "unique_loop (file # found_files) unique_files seen =
     (if file \<notin> seen
      then unique_loop found_files (unique_files @ [file]) (insert file seen)
      else unique_loop found_files unique_files seen)"

text \<open>The web service keeps a set of the strings \<open>str(file)\<close>.\<close>

fun api_unique_loop :: "path list \<Rightarrow> path list \<Rightarrow> string set \<Rightarrow> path list" where
  "api_unique_loop [] unique_files seen = unique_files"
| "api_unique_loop (file # found_files) unique_files seen =
     (let file_str = str file
      in if file_str \<notin> seen
         then api_unique_loop found_files (unique_files @ [file]) (insert file_str seen)
         else api_unique_loop found_files unique_files seen)"

text \<open>
  The merged candidate list (\<open>unique_files\<close>) of \<open>smart_file_search\<close> and of
  \<open>smart_search\<close>. The web service searches the directories the caller names, and the
  default directories when the caller names none; its strategies are the same code as
  those of the command-line engine, reading each listing through
  \<open>_async_scan_directory\<close>, which yields the items of \<open>rglob\<close>.
\<close>

definition unique_files :: "filesystem \<Rightarrow> path \<Rightarrow> int \<Rightarrow> string \<Rightarrow> error + path list" where
  "unique_files fs home now query =
     (case run_strategies fs now (lower query) (default_dirs home) of
        Inl e \<Rightarrow> Inl e
      | Inr found_files \<Rightarrow> Inr (unique_loop found_files [] {}))"

definition api_unique_files ::
  "filesystem \<Rightarrow> path \<Rightarrow> int \<Rightarrow> string \<Rightarrow> path list \<Rightarrow> error + path list" where
  "api_unique_files fs home now query file_paths =
     (let search_dirs = (if file_paths = [] then default_dirs home else file_paths)
      in case run_strategies fs now (lower query) search_dirs of
           Inl e \<Rightarrow> Inl e
         | Inr found_files \<Rightarrow> Inr (api_unique_loop found_files [] {}))"

text \<open>
  The value \<open>smart_file_search\<close> returns (\<open>ranked_files\<close>). Console output, speech and
  the search history are not part of the model.
\<close>

definition smart_file_search ::
  "filesystem \<Rightarrow> preferences \<Rightarrow> path \<Rightarrow> int \<Rightarrow> string \<Rightarrow> error + (path \<times> rat) list" where
  "smart_file_search fs prefs home now query =
     (case unique_files fs home now query of
        Inl e \<Rightarrow> Inl e
      | Inr files \<Rightarrow> rank_search_results fs prefs now files (lower query))"

text \<open>
  The web service: \<open>ranked_files\<close> of \<open>smart_search\<close>, and the list \<open>results\<close> it
  returns, formatted from the first twenty ranked files; a file whose \<open>stat\<close> raises
  while the results are formatted is left out. \<open>total_found\<close> is the length of
  \<open>results\<close>. The scores of this ranker are multiples of 0.5, which
  \<open>round(score, 2)\<close> leaves as they are; the field \<open>size_mb\<close>, a rounding of the size,
  and the search time are not part of the model.
\<close>

definition api_ranked_files ::
  "filesystem \<Rightarrow> path \<Rightarrow> int \<Rightarrow> string \<Rightarrow> path list \<Rightarrow> error + (path \<times> rat) list" where
  "api_ranked_files fs home now query file_paths =
     (case api_unique_files fs home now query file_paths of
        Inl e \<Rightarrow> Inl e
      | Inr files \<Rightarrow> Inr (api_rank_search_results fs now files (lower query)))"

record search_result =
  filename :: string
  result_path :: string
  full_path :: string
  result_size :: int
  modified :: int
  result_category :: category
  relevance_score :: rat

definition format_result :: "path \<Rightarrow> rat \<Rightarrow> stat_result \<Rightarrow> search_result" where
  "format_result file_path score st =
     \<lparr>filename = name file_path, result_path = str (parent file_path),
      full_path = str file_path, result_size = st_size st, modified = st_mtime st,
      result_category = categorize_file file_path, relevance_score = score\<rparr>"

fun format_results ::
  "filesystem \<Rightarrow> (path \<times> rat) list \<Rightarrow> search_result list \<Rightarrow> search_result list" where
  "format_results fs [] results = results"
| "format_results fs ((file_path, score) # rest) results =
     (case stat fs file_path of
        None \<Rightarrow> format_results fs rest results
      | Some st \<Rightarrow> format_results fs rest (results @ [format_result file_path score st]))"

definition api_smart_search ::
  "filesystem \<Rightarrow> path \<Rightarrow> int \<Rightarrow> string \<Rightarrow> path list \<Rightarrow> error + search_result list" where
  "api_smart_search fs home now query file_paths =
     (case api_ranked_files fs home now query file_paths of
        Inl e \<Rightarrow> Inl e
      | Inr ranked_files \<Rightarrow> Inr (format_results fs (take 20 ranked_files) []))"

section \<open>Analysis and learning\<close>

text \<open>
  A \<open>defaultdict\<close> is an association list in insertion order; \<open>dd_update k d f\<close> is
  \<open>m[k] = f(m[k])\<close>, a missing key starting from the default \<open>d\<close>.
\<close>

fun dd_update :: "'k \<Rightarrow> 'v \<Rightarrow> ('v \<Rightarrow> 'v) \<Rightarrow> ('k \<times> 'v) list \<Rightarrow> ('k \<times> 'v) list" where
  "dd_update k d f [] = [(k, f d)]"
| "dd_update k d f ((k', v) # kvs) =
     (if k = k' then (k', f v) # kvs else (k', v) # dd_update k d f kvs)"

record analysis =
  file_stats :: "(category \<times> nat) list"
  size_stats :: "(category \<times> int) list"
  date_patterns :: "(category \<times> int list) list"
  location_patterns :: "(category \<times> string list) list"
  total_files :: nat
  total_size :: int

definition analysis_start :: analysis where
  "analysis_start =
     \<lparr>file_stats = [], size_stats = [], date_patterns = [], location_patterns = [],
      total_files = 0, total_size = 0\<rparr>"

text \<open>
  The body of the scanning loop of \<open>analyze_file_system\<close>. Both \<open>stat\<close> calls come before
  the first update, inside \<open>try\<close>; when they raise the file is skipped.
\<close>

definition analyze_body :: "filesystem \<Rightarrow> path \<Rightarrow> path \<Rightarrow> analysis \<Rightarrow> error + analysis" where
  "analyze_body fs scan_dir file_path a =
     (if is_file fs file_path
      then (case stat fs file_path of
              None \<Rightarrow> Inr a
            | Some st \<Rightarrow>
                if st_size st = 0 then Inr a
                else (let category = categorize_file file_path
                      in Inr (a\<lparr>total_files := total_files a + 1,
                                total_size := total_size a + st_size st,
                                file_stats := dd_update category 0 (\<lambda>n. n + 1) (file_stats a),
                                size_stats :=
                                  dd_update category 0 (\<lambda>n. n + st_size st) (size_stats a),
                                date_patterns :=
                                  dd_update category [] (\<lambda>l. l @ [st_mtime st]) (date_patterns a),
                                location_patterns :=
                                  dd_update category [] (\<lambda>l. l @ [name scan_dir])
                                    (location_patterns a)\<rparr>)))
      else Inr a)"

definition scan_all :: "filesystem \<Rightarrow> path list \<Rightarrow> error + analysis" where
  "scan_all fs scan_dirs = for_each_dir fs (analyze_body fs) scan_dirs analysis_start"

text \<open>
  \<open>Counter(xs).most_common(1)[0]\<close>: the counts in order of first occurrence, and the first
  entry of the largest count; \<open>IndexError\<close> on the empty list.
\<close>

fun counter :: "'a list \<Rightarrow> ('a \<times> nat) list \<Rightarrow> ('a \<times> nat) list" where
  "counter [] counts = counts"
| "counter (x # xs) counts = counter xs (dd_update x 0 (\<lambda>n. n + 1) counts)"

fun max_by_count :: "'a \<times> nat \<Rightarrow> ('a \<times> nat) list \<Rightarrow> 'a \<times> nat" where
  "max_by_count best [] = best"
| "max_by_count best (item # items) =
     max_by_count (if snd item > snd best then item else best) items"

definition most_common1 :: "'a list \<Rightarrow> error + 'a \<times> nat" where
  "most_common1 xs =
     (case counter xs [] of
        [] \<Rightarrow> Inl IndexError
      | item # items \<Rightarrow> Inr (max_by_count item items))"

record file_pattern =
  most_active_hour :: int
  pattern_total_files :: nat
  pattern_learned_on :: int

record file_memory =
  organization_preferences :: preferences
  file_patterns :: "category \<rightharpoonup> file_pattern"

text \<open>The first loop of \<open>learn_organization_patterns\<close>: where each category is stored.\<close>

fun learn_locations ::
  "(category \<times> string list) list \<Rightarrow> int \<Rightarrow> preferences \<Rightarrow> error + preferences" where
  "learn_locations [] now prefs = Inr prefs"
| "learn_locations ((category, locations) # rest) now prefs =
     (if locations \<noteq> []
      then (case most_common1 locations of
              Inl e \<Rightarrow> Inl e
            | Inr most_common_location \<Rightarrow>
                learn_locations rest now
                  (prefs(category \<mapsto>
                     \<lparr>preferred_location = fst most_common_location,
                      confidence =
                        of_nat (snd most_common_location) / of_nat (length locations),
                      learned_on = now\<rparr>)))
      else learn_locations rest now prefs)"

text \<open>The second loop: the hour of the day at which each category is modified most.\<close>

definition hour :: "int \<Rightarrow> int" where
  "hour t = (t div 3600000000) mod 24"

fun learn_dates ::
  "(category \<times> int list) list \<Rightarrow> int \<Rightarrow> (category \<rightharpoonup> file_pattern)
     \<Rightarrow> error + (category \<rightharpoonup> file_pattern)" where
  "learn_dates [] now patterns = Inr patterns"
| "learn_dates ((category, dates) # rest) now patterns =
     (if dates \<noteq> []
      then (case most_common1 (map hour dates) of
              Inl e \<Rightarrow> Inl e
            | Inr most_common_hour \<Rightarrow>
                learn_dates rest now
                  (patterns(category \<mapsto>
                     \<lparr>most_active_hour = fst most_common_hour,
                      pattern_total_files = length dates,
                      pattern_learned_on = now\<rparr>)))
      else learn_dates rest now patterns)"

definition learn_organization_patterns ::
  "(category \<times> string list) list \<Rightarrow> (category \<times> int list) list \<Rightarrow> int \<Rightarrow> file_memory
     \<Rightarrow> error + file_memory" where
  "learn_organization_patterns locations dates now memory =
     (case learn_locations locations now (organization_preferences memory) of
        Inl e \<Rightarrow> Inl e
      | Inr prefs \<Rightarrow>
          (case learn_dates dates now (file_patterns memory) of
             Inl e \<Rightarrow> Inl e
           | Inr patterns \<Rightarrow>
               Inr (memory\<lparr>organization_preferences := prefs, file_patterns := patterns\<rparr>)))"

text \<open>
  \<open>analyze_file_system\<close>: the memory after the pass and the counts it returns. The
  suggestions derived from the counts, console output and speech are not part of the
  model.
\<close>

definition analyze_file_system ::
  "filesystem \<Rightarrow> path \<Rightarrow> int \<Rightarrow> file_memory \<Rightarrow> error + file_memory \<times> analysis" where
  "analyze_file_system fs home now memory =
     (case scan_all fs (default_dirs home) of
        Inl e \<Rightarrow> Inl e
      | Inr a \<Rightarrow>
          (case learn_organization_patterns (location_patterns a) (date_patterns a) now memory of
             Inl e \<Rightarrow> Inl e
           | Inr memory' \<Rightarrow> Inr (memory', a)))"

section \<open>Auto-organization\<close>

text \<open>
  \<open>files_to_organize\<close>: the regular, non-empty files of the immediate listing of a
  directory. Nothing catches a failing \<open>stat\<close> here.
\<close>

fun files_to_organize_loop :: "filesystem \<Rightarrow> path list \<Rightarrow> path list \<Rightarrow> error + path list" where
  "files_to_organize_loop fs [] files = Inr files"
| "files_to_organize_loop fs (file_path # rest) files =
     (if is_file fs file_path
      then (case stat fs file_path of
              None \<Rightarrow> Inl OSError
            | Some st \<Rightarrow>
                files_to_organize_loop fs rest
                  (if st_size st > 0 then files @ [file_path] else files))
      else files_to_organize_loop fs rest files)"

subsection \<open>The command-line engine\<close>

definition location_mapping :: "path \<Rightarrow> (string \<times> path) list" where
  "location_mapping home =
     [(''Documents'', joinpath home ''Documents''),
      (''Pictures'', joinpath home ''Pictures''),
      (''Music'', joinpath home ''Music''),
      (''Videos'', joinpath home ''Videos'')]"

text \<open>
  The loop over \<open>files_to_organize\<close>. For a file whose category has a preferred location
  that \<open>location_mapping\<close> knows, the engine creates the target directory, picks a free
  name in it and calls \<open>shutil.move\<close>, all inside \<open>try\<close>. The model returns the moves
  that are attempted, in order, as pairs of the file and the target directory;
  \<open>organized_count\<close> counts those of them that do not raise.
\<close>

fun organize_loop ::
  "preferences \<Rightarrow> path \<Rightarrow> path list \<Rightarrow> (path \<times> path) list \<Rightarrow> (path \<times> path) list" where
  "organize_loop prefs home [] moves = moves"
| "organize_loop prefs home (file_path # rest) moves =
     (let category = categorize_file file_path
      in case prefs category of
           None \<Rightarrow> organize_loop prefs home rest moves
         | Some pref \<Rightarrow>
             (case map_of (location_mapping home) (preferred_location pref) of
                None \<Rightarrow> organize_loop prefs home rest moves
              | Some target_dir \<Rightarrow>
                  organize_loop prefs home rest (moves @ [(file_path, target_dir)])))"

text \<open>\<open>None\<close> is the early \<open>return\<close> without a count.\<close>

definition auto_organize_files ::
  "filesystem \<Rightarrow> preferences \<Rightarrow> path \<Rightarrow> error + (path \<times> path) list option" where
  "auto_organize_files fs prefs home =
     (let downloads_dir = joinpath home ''Downloads''
      in if \<not> exists fs downloads_dir then Inr None
         else (case files_to_organize_loop fs (iterdir fs downloads_dir) [] of
                 Inl e \<Rightarrow> Inl e
               | Inr files_to_organize \<Rightarrow>
                   if files_to_organize = [] then Inr None
                   else Inr (Some (organize_loop prefs home files_to_organize []))))"

subsection \<open>The web service\<close>

record plan_entry =
  entry_file :: string
  entry_from :: string
  entry_to :: string
  entry_category :: category
  entry_action :: string

record organize_result =
  files_analyzed :: nat
  organization_plan :: "plan_entry list"
  dry_run :: bool

definition get_target_directory :: "path \<Rightarrow> category \<Rightarrow> path option" where
  "get_target_directory home category =
     map_of [(Images, joinpath home ''Pictures''),
             (Documents, joinpath home ''Documents''),
             (Audio, joinpath home ''Music''),
             (Video, joinpath home ''Videos'')] category"

fun plan_loop :: "path \<Rightarrow> path list \<Rightarrow> plan_entry list \<Rightarrow> plan_entry list" where
  "plan_loop home [] plan = plan"
| "plan_loop home (file_path # rest) plan =
     (let category = categorize_file file_path
      in case get_target_directory home category of
           None \<Rightarrow> plan_loop home rest plan
         | Some target_dir \<Rightarrow>
             if target_dir \<noteq> parent file_path
             then plan_loop home rest
                    (plan @
                      [\<lparr>entry_file = name file_path, entry_from = str (parent file_path),
                        entry_to = str target_dir, entry_category = category,
                        entry_action = ''move''\<rparr>])
             else plan_loop home rest plan)"

text \<open>
  \<open>auto_organize\<close>; \<open>path\<close> is \<open>None\<close> when the caller gives no path. With
  \<open>dry_run = False\<close> the function does nothing more (\<open>pass\<close>).
\<close>

definition auto_organize ::
  "filesystem \<Rightarrow> path \<Rightarrow> path option \<Rightarrow> bool \<Rightarrow> error + organize_result" where
  "auto_organize fs home path dry =
     (let target_path = (case path of Some p \<Rightarrow> p | None \<Rightarrow> joinpath home ''Downloads'')
      in if \<not> exists fs target_path then Inl ValueError
         else (case files_to_organize_loop fs (iterdir fs target_path) [] of
                 Inl e \<Rightarrow> Inl e
               | Inr files_to_organize \<Rightarrow>
                   Inr \<lparr>files_analyzed = length files_to_organize,
                        organization_plan = plan_loop home files_to_organize [],
                        dry_run = dry\<rparr>))"

section \<open>The specification's notions\<close>

text \<open>
  The terms of the relevance score as the specification words them: the bonus for an exact
  or a substring match of the name, the bonus for the words of the query, the bonus for
  a recent modification ("within the last \<open>n\<close> days" read as less than \<open>n\<close> days
  before \<open>now\<close>), and the bonus for a file that lies where its category is preferred.
\<close>

definition match_bonus :: "string \<Rightarrow> path \<Rightarrow> rat" where
  "match_bonus query p =
     (if lower (name p) = query then 10 else if contains query (lower (name p)) then 5 else 0)"

definition word_bonus :: "string \<Rightarrow> path \<Rightarrow> rat" where
  "word_bonus query p =
     2 * of_nat (length (filter (\<lambda>word. contains word (lower (name p))) (split query)))"

definition recency_bonus :: "int \<Rightarrow> int \<Rightarrow> rat" where
  "recency_bonus now mtime =
     (if now - mtime < 7 * day then 1 else if now - mtime < 30 * day then 1 / 2 else 0)"

definition preference_bonus :: "preferences \<Rightarrow> path \<Rightarrow> rat" where
  "preference_bonus prefs p =
     (case prefs (categorize_file p) of
        None \<Rightarrow> 0
      | Some pref \<Rightarrow>
          if contains (preferred_location pref) (str (parent p)) then confidence pref else 0)"

section \<open>An example file system\<close>

text \<open>
  A home directory with two of the default directories: \<open>Documents\<close> holds a report, a
  backup of it in a subdirectory and a text file in another; \<open>Downloads\<close> holds a
  photo and an empty file. The clock stands at day 100.
\<close>

definition ex_home :: path where
  "ex_home = [''home'', ''u'']"

definition ex_now :: int where
  "ex_now = 100 * day"

definition ex_report :: path where
  "ex_report = [''home'', ''u'', ''Documents'', ''report.pdf'']"

definition ex_backup :: path where
  "ex_backup = [''home'', ''u'', ''Documents'', ''old'', ''report.pdf.bak'']"

definition ex_notes :: path where
  "ex_notes = [''home'', ''u'', ''Documents'', ''work'', ''notes.txt'']"

definition ex_photo :: path where
  "ex_photo = [''home'', ''u'', ''Downloads'', ''photo.jpg'']"

definition ex_empty :: path where
  "ex_empty = [''home'', ''u'', ''Downloads'', ''empty.png'']"

definition ex_fs :: filesystem where
  "ex_fs =
     \<lparr>exists = (\<lambda>d. d \<in> set [joinpath ex_home ''Documents'', joinpath ex_home ''Downloads'']),
      rglob = (\<lambda>d. if d = joinpath ex_home ''Documents''
                     then [ex_report, joinpath (joinpath ex_home ''Documents'') ''old'', ex_backup,
                           joinpath (joinpath ex_home ''Documents'') ''work'', ex_notes]
                     else if d = joinpath ex_home ''Downloads'' then [ex_photo, ex_empty]
                     else []),
      iterdir = (\<lambda>d. if d = joinpath ex_home ''Downloads'' then [ex_photo, ex_empty] else []),
      is_file = (\<lambda>p. p \<in> set [ex_report, ex_backup, ex_notes, ex_photo, ex_empty]),
      stat = map_of
        [(ex_report, \<lparr>st_size = 2048, st_mtime = 99 * day\<rparr>),
         (ex_backup, \<lparr>st_size = 2048, st_mtime = 50 * day\<rparr>),
         (ex_notes, \<lparr>st_size = 16, st_mtime = 80 * day\<rparr>),
         (ex_photo, \<lparr>st_size = 5000, st_mtime = 5 * day\<rparr>),
         (ex_empty, \<lparr>st_size = 0, st_mtime = 99 * day\<rparr>)],
      read_text = map_of [(ex_notes, ''Quarterly Report'')]\<rparr>"

definition ex_prefs :: preferences where
  "ex_prefs =
     [Documents \<mapsto> \<lparr>preferred_location = ''Documents'', confidence = 4 / 5, learned_on = 0\<rparr>]"

text \<open>
  The position of the first occurrence of an entry in a list: the order of discovery.
\<close>

definition first_index :: "'a list \<Rightarrow> 'a \<Rightarrow> nat" where
  "first_index xs a = length (takeWhile (\<lambda>x. x \<noteq> a) xs)"

text \<open>
  The canonical form of an absolute path in a tree without symbolic links: \<open>.\<close> is
  dropped and \<open>..\<close> steps back to the parent.
\<close>

fun canonical_from :: "path \<Rightarrow> path \<Rightarrow> path" where
  "canonical_from [] stack = rev stack"
| "canonical_from (c # cs) stack =
     (if c = ''..'' then canonical_from cs (tl stack)
      else if c = ''.'' then canonical_from cs stack
      else canonical_from cs (c # stack))"

definition canonical :: "path \<Rightarrow> path" where
  "canonical p = canonical_from p []"

text \<open>
  A directory \<open>/srv/a\<close> with one file, searched under two spellings of its name, as a
  caller of the web service may name them.
\<close>

definition alias_fs :: filesystem where
  "alias_fs =
     \<lparr>exists = (\<lambda>d. d \<in> set [[''srv'', ''a''], [''srv'', ''a'', ''..'', ''a'']]),
      rglob = (\<lambda>d. if d = [''srv'', ''a''] then [[''srv'', ''a'', ''f.dat'']]
                     else if d = [''srv'', ''a'', ''..'', ''a'']
                     then [[''srv'', ''a'', ''..'', ''a'', ''f.dat'']]
                     else []),
      iterdir = (\<lambda>d. []),
      is_file = (\<lambda>p. p \<in> set [[''srv'', ''a'', ''f.dat''], [''srv'', ''a'', ''..'', ''a'', ''f.dat'']]),
      stat = (\<lambda>p. if p \<in> set [[''srv'', ''a'', ''f.dat''], [''srv'', ''a'', ''..'', ''a'', ''f.dat'']]
                    then Some \<lparr>st_size = 10, st_mtime = 99 * day\<rparr> else None),
      read_text = (\<lambda>p. None)\<rparr>"

text \<open>
  The files in scope of a search: the recursive listings of the search directories that
  exist, in the order of the scan.
\<close>

definition scanned :: "filesystem \<Rightarrow> path list \<Rightarrow> path list" where
  "scanned fs dirs = concat (map (rglob fs) (filter (exists fs) dirs))"

text \<open>A regular file of a size greater than 0.\<close>

definition nonempty_file :: "filesystem \<Rightarrow> path \<Rightarrow> bool" where
  "nonempty_file fs p =
     (is_file fs p \<and> (case stat fs p of None \<Rightarrow> False | Some st \<Rightarrow> 0 < st_size st))"

text \<open>
  A regular file with an extension of the text allow-list and a size greater than 0 and
  less than \<open>limit\<close>; a file whose text contains the query.
\<close>

definition text_file_below :: "filesystem \<Rightarrow> int \<Rightarrow> path \<Rightarrow> bool" where
  "text_file_below fs limit p =
     (is_file fs p \<and> lower (path_suffix p) \<in> set text_extensions
      \<and> (case stat fs p of None \<Rightarrow> False | Some st \<Rightarrow> 0 < st_size st \<and> st_size st < limit))"

definition content_matches :: "filesystem \<Rightarrow> string \<Rightarrow> path \<Rightarrow> bool" where
  "content_matches fs query p =
     (case read_text fs p of None \<Rightarrow> False | Some content \<Rightarrow> contains query (lower content))"

text \<open>The keyword buckets of the date and size strategies.\<close>

definition has_word :: "string list \<Rightarrow> string \<Rightarrow> bool" where
  "has_word bucket query = (\<exists>word\<in>set bucket. contains word query)"

definition modified_after :: "filesystem \<Rightarrow> int \<Rightarrow> path \<Rightarrow> bool" where
  "modified_after fs t p =
     (case stat fs p of None \<Rightarrow> False | Some st \<Rightarrow> t < st_mtime st)"

definition modified_before :: "filesystem \<Rightarrow> int \<Rightarrow> path \<Rightarrow> bool" where
  "modified_before fs t p =
     (case stat fs p of None \<Rightarrow> False | Some st \<Rightarrow> st_mtime st < t)"

definition size_between :: "filesystem \<Rightarrow> int \<Rightarrow> int \<Rightarrow> path \<Rightarrow> bool" where
  "size_between fs lo hi p =
     (is_file fs p \<and> (case stat fs p of None \<Rightarrow> False | Some st \<Rightarrow> lo < st_size st \<and> st_size st < hi))"

definition size_above :: "filesystem \<Rightarrow> int \<Rightarrow> path \<Rightarrow> bool" where
  "size_above fs lo p =
     (is_file fs p \<and> (case stat fs p of None \<Rightarrow> False | Some st \<Rightarrow> lo < st_size st))"

text \<open>
  A text file of exactly 1 MiB that contains the word searched for, and a directory in
  which one file is deleted after \<open>is_file\<close> has answered and before \<open>stat\<close> is called.
\<close>

definition mib_fs :: filesystem where
  "mib_fs =
     \<lparr>exists = (\<lambda>d. d = [''data'']),
      rglob = (\<lambda>d. if d = [''data''] then [[''data'', ''big.txt'']] else []),
      iterdir = (\<lambda>d. if d = [''data''] then [[''data'', ''big.txt'']] else []),
      is_file = (\<lambda>p. p = [''data'', ''big.txt'']),
      stat = (\<lambda>p. if p = [''data'', ''big.txt'']
                    then Some \<lparr>st_size = 1048576, st_mtime = 99 * day\<rparr> else None),
      read_text = (\<lambda>p. if p = [''data'', ''big.txt''] then Some ''a needle in the hay'' else None)\<rparr>"

definition vanish_fs :: filesystem where
  "vanish_fs =
     \<lparr>exists = (\<lambda>d. d = [''home'', ''u'', ''Documents'']),
      rglob = (\<lambda>d. if d = [''home'', ''u'', ''Documents'']
                     then [[''home'', ''u'', ''Documents'', ''gone.txt''],
                           [''home'', ''u'', ''Documents'', ''kept.txt'']]
                     else []),
      iterdir = (\<lambda>d. []),
      is_file = (\<lambda>p. p \<in> set [[''home'', ''u'', ''Documents'', ''gone.txt''],
                                 [''home'', ''u'', ''Documents'', ''kept.txt'']]),
      stat = (\<lambda>p. if p = [''home'', ''u'', ''Documents'', ''kept.txt'']
                    then Some \<lparr>st_size = 10, st_mtime = 99 * day\<rparr> else None),
      read_text = (\<lambda>p. if p = [''home'', ''u'', ''Documents'', ''kept.txt'']
                         then Some ''kept text'' else None)\<rparr>"

text \<open>
  What the analysis observes: the regular files whose size can be read and is not 0. The
  locations recorded for a category are the names of the scanned directories under which
  its observed files are found, one for every file, in the order of the scan.
\<close>

definition observed :: "filesystem \<Rightarrow> path \<Rightarrow> bool" where
  "observed fs p =
     (is_file fs p \<and> (case stat fs p of None \<Rightarrow> False | Some st \<Rightarrow> st_size st \<noteq> 0))"

definition observed_in :: "filesystem \<Rightarrow> category \<Rightarrow> path \<Rightarrow> string list" where
  "observed_in fs c scan_dir =
     map (\<lambda>p. name scan_dir) (filter (\<lambda>p. observed fs p \<and> categorize_file p = c) (rglob fs scan_dir))"

definition observed_locations :: "filesystem \<Rightarrow> path list \<Rightarrow> category \<Rightarrow> string list" where
  "observed_locations fs dirs c = concat (map (observed_in fs c) (filter (exists fs) dirs))"

text \<open>The names of the immediate parent directories of the observed files of a category.\<close>

definition observed_parents :: "filesystem \<Rightarrow> path list \<Rightarrow> category \<Rightarrow> string list" where
  "observed_parents fs dirs c =
     map (\<lambda>p. name (parent p))
       (filter (\<lambda>p. observed fs p \<and> categorize_file p = c) (scanned fs dirs))"

definition no_memory :: file_memory where
  "no_memory = \<lparr>organization_preferences = Map.empty, file_patterns = Map.empty\<rparr>"

text \<open>
  The list a \<open>defaultdict(list)\<close> holds for a key, empty for a key that is absent.
\<close>

definition recorded :: "('k \<times> 'v list) list \<Rightarrow> 'k \<Rightarrow> 'v list" where
  "recorded patterns k = (case map_of patterns k of None \<Rightarrow> [] | Some l \<Rightarrow> l)"

text \<open>
  A directory \<open>/d\<close> with twenty-one files \<open>a\<close> to \<open>u\<close> of one byte each, last modified
  at time 0, and the twenty results the web service formats for its first twenty files.
\<close>

definition many_files :: "path list" where
  "many_files = map (\<lambda>c. [''d'', [c]]) ''abcdefghijklmnopqrstu''"

definition many_fs :: filesystem where
  "many_fs =
     \<lparr>exists = (\<lambda>d. d = [''d'']),
      rglob = (\<lambda>d. if d = [''d''] then many_files else []),
      iterdir = (\<lambda>d. if d = [''d''] then many_files else []),
      is_file = (\<lambda>p. p \<in> set many_files),
      stat = (\<lambda>p. if p \<in> set many_files then Some \<lparr>st_size = 1, st_mtime = 0\<rparr> else None),
      read_text = (\<lambda>p. None)\<rparr>"

definition many_results :: "search_result list" where
  "many_results = format_results many_fs (map (\<lambda>p. (p, 5)) (take 20 many_files)) []"

text \<open>
  The files auto-organization looks at: the non-empty regular files of the immediate
  listing of a directory. A table of learned preferences that knows where images are kept.
\<close>

definition files_in :: "filesystem \<Rightarrow> path \<Rightarrow> path list" where
  "files_in fs d = filter (nonempty_file fs) (iterdir fs d)"

definition image_prefs :: preferences where
  "image_prefs =
     [Images \<mapsto> \<lparr>preferred_location = ''Pictures'', confidence = 4 / 5, learned_on = 0\<rparr>]"

(*DEFS-END*)

lemmas ex_defs = ex_home_def ex_now_def ex_report_def ex_backup_def ex_notes_def ex_photo_def
  ex_empty_def ex_fs_def ex_prefs_def joinpath_def

section \<open>Strings: substrings and words\<close>

lemma startswith_prefix: "startswith xs ys = prefix xs ys"
  by (induction xs ys rule: startswith.induct) auto

lemma contains_sublist: "contains xs ys = sublist xs ys"
  by (induction ys) (auto simp: startswith_prefix sublist_Cons_right)

lemma contains_trans: "contains a b \<Longrightarrow> contains b c \<Longrightarrow> contains a c"
  unfolding contains_sublist by (rule sublist_order.order_trans)

lemma split_from_contained:
  "w \<in> set (split_from cur cs) \<Longrightarrow> contains w (cur @ cs)"
proof (induction cs arbitrary: cur)
  case Nil
  then show ?case by (auto simp: contains_sublist split: if_splits)
next
  case (Cons c cs)
  show ?case
  proof (cases "is_space c")
    case True
    with Cons.prems have "w = cur \<or> w \<in> set (split_from [] cs)"
      by (auto split: if_splits)
    then show ?thesis
    proof
      assume "w = cur" then show ?thesis by (simp add: contains_sublist)
    next
      assume "w \<in> set (split_from [] cs)"
      then have "sublist w cs" using Cons.IH[of "[]"] by (simp add: contains_sublist)
      then obtain ps ss where "cs = ps @ w @ ss"
        by (auto simp: sublist_def)
      then have "cur @ c # cs = (cur @ c # ps) @ w @ ss"
        by simp
      then have "sublist w (cur @ c # cs)"
        unfolding sublist_def by blast
      then show ?thesis by (simp add: contains_sublist)
    qed
  next
    case False
    with Cons.prems have "w \<in> set (split_from (cur @ [c]) cs)" by simp
    then show ?thesis using Cons.IH[of "cur @ [c]"] by simp
  qed
qed

lemma split_contained: "w \<in> set (split q) \<Longrightarrow> contains w q"
  using split_from_contained[of w "[]" q] by (simp add: split_def)

section \<open>The relevance score\<close>

lemma word_loop_eq:
  "word_loop ws n s = s + 2 * of_nat (length (filter (\<lambda>w. contains w n) ws))"
  by (induction ws arbitrary: s) auto

lemma name_score_eq: "name_score query p = match_bonus query p + word_bonus query p"
  by (auto simp: name_score_def match_bonus_def word_bonus_def word_loop_eq Let_def)

lemma days_old_less: "((x::int) div day < k) = (x < k * day)"
  unfolding day_def by linarith

lemma recent_bonus_eq: "recent_bonus now st s = s + recency_bonus now (st_mtime st)"
  by (simp add: recent_bonus_def recency_bonus_def Let_def days_old_less)

lemma location_bonus_eq: "location_bonus prefs p s = s + preference_bonus prefs p"
  by (simp add: location_bonus_def preference_bonus_def split: option.splits)




section \<open>The ranker\<close>

lemma rank_loop_eq:
  "\<forall>p\<in>set files. score_file fs prefs now q p = Inr (sc p) \<Longrightarrow>
     rank_loop fs prefs now q files acc =
       Inr (acc @ filter (\<lambda>x. 0 < snd x) (map (\<lambda>p. (p, sc p)) files))"
  by (induction files arbitrary: acc) auto

lemma api_rank_loop_eq:
  "api_rank_loop fs now q files acc =
     acc @ filter (\<lambda>x. 0 < snd x) (map (\<lambda>p. (p, api_score_file fs now q p)) files)"
  by (induction files arbitrary: acc) (auto simp: Let_def)

lemma score_file_total:
  "stat fs p \<noteq> None \<Longrightarrow> \<exists>s. score_file fs prefs now q p = Inr s"
  by (auto simp: score_file_def)

lemma rank_search_results_eq:
  assumes "\<forall>p\<in>set files. score_file fs prefs now q p = Inr (sc p)"
  shows "rank_search_results fs prefs now files q =
           Inr (sorted_by_score_reverse (filter (\<lambda>x. 0 < snd x) (map (\<lambda>p. (p, sc p)) files)))"
  using rank_loop_eq[OF assms, of "[]"] by (simp add: rank_search_results_def)

lemma api_rank_search_results_eq:
  "api_rank_search_results fs now files q =
     sorted_by_score_reverse
       (filter (\<lambda>x. 0 < snd x) (map (\<lambda>p. (p, api_score_file fs now q p)) files))"
  by (simp add: api_rank_search_results_def api_rank_loop_eq)

lemma set_sorted_by_score_reverse: "set (sorted_by_score_reverse xs) = set xs"
  by (simp add: sorted_by_score_reverse_def)

lemma descending_sorted_by_score_reverse:
  "sorted_wrt (\<lambda>a b. snd b \<le> snd a) (sorted_by_score_reverse xs)"
proof -
  have "sorted (map (\<lambda>x. - snd x) (sort_key (\<lambda>x. - snd x) xs))"
    by (rule sorted_sort_key)
  then show ?thesis
    by (simp add: sorted_by_score_reverse_def sorted_map)
qed

lemma ties_sorted_by_score_reverse:
  "filter (\<lambda>x. snd x = k) (sorted_by_score_reverse xs) = filter (\<lambda>x. snd x = k) xs"
proof -
  have "filter (\<lambda>x. - snd x = - k) (sort_key (\<lambda>x. - snd x) xs)
          = filter (\<lambda>x. - snd x = - k) xs"
    by (rule sort_key_stable)
  then show ?thesis
    by (simp add: sorted_by_score_reverse_def)
qed

lemma descending_index:
  fixes out :: "('a \<times> rat) list"
  assumes "sorted_wrt (\<lambda>a b. snd b \<le> snd a) out" "i < length out" "j < length out"
    and "snd (out ! j) < snd (out ! i)"
  shows "i < j"
proof (rule ccontr)
  assume "\<not> i < j"
  then consider "i = j" | "j < i" by linarith
  then show False
  proof cases
    case 1
    with assms(4) show False by simp
  next
    case 2
    have "snd (out ! i) \<le> snd (out ! j)"
      using sorted_wrt_nth_less[OF assms(1) 2 assms(2)] .
    with assms(4) show False by simp
  qed
qed

lemma scored_filter_fst:
  fixes sc :: "'a \<Rightarrow> rat"
  shows "map fst (filter (\<lambda>x. snd x = k) (filter (\<lambda>x. 0 < snd x) (map (\<lambda>p. (p, sc p)) files)))
     = filter (\<lambda>p. sc p = k \<and> 0 < k) files"
  by (induction files) auto

text \<open>
  C3. When the modification time of every candidate can be read, the ranker returns a
  list in which every entry has a score greater than 0, the scores descend, and for
  every score \<open>k\<close> the entries of score \<open>k\<close> are exactly the candidates whose computed
  score is \<open>k\<close> and positive, in their order in the input: entries of score 0 or less
  are absent, and ties keep the order of discovery. The same holds for the ranker of the
  web service, which always returns.
\<close>

theorem ranker_filter_and_order:
  assumes "\<forall>p\<in>set files. stat fs p \<noteq> None"
  shows "(\<exists>out. rank_search_results fs prefs now files query = Inr out
            \<and> (\<forall>x\<in>set out. 0 < snd x)
            \<and> sorted_wrt (\<lambda>a b. snd b \<le> snd a) out
            \<and> (\<forall>k. map fst (filter (\<lambda>x. snd x = k) out) =
                     filter (\<lambda>p. score_file fs prefs now query p = Inr k \<and> 0 < k) files))
         \<and> (\<forall>x\<in>set (api_rank_search_results fs now files query). 0 < snd x)
         \<and> sorted_wrt (\<lambda>a b. snd b \<le> snd a) (api_rank_search_results fs now files query)
         \<and> (\<forall>k. map fst (filter (\<lambda>x. snd x = k) (api_rank_search_results fs now files query)) =
                  filter (\<lambda>p. api_score_file fs now query p = k \<and> 0 < k) files)"
proof -
  define sc where "sc p = (case score_file fs prefs now query p of Inr s \<Rightarrow> s | Inl e \<Rightarrow> 0)" for p
  have sc: "\<forall>p\<in>set files. score_file fs prefs now query p = Inr (sc p)"
    using assms score_file_total[of fs _ prefs now query] by (fastforce simp: sc_def)
  let ?L = "filter (\<lambda>x. 0 < snd x) (map (\<lambda>p. (p, sc p)) files)"
  have out: "rank_search_results fs prefs now files query = Inr (sorted_by_score_reverse ?L)"
    by (rule rank_search_results_eq[OF sc])
  have pos: "\<forall>x\<in>set (sorted_by_score_reverse ?L). 0 < snd x"
    by (simp add: set_sorted_by_score_reverse)
  have ties: "map fst (filter (\<lambda>x. snd x = k) (sorted_by_score_reverse ?L)) =
                filter (\<lambda>p. score_file fs prefs now query p = Inr k \<and> 0 < k) files" for k
  proof -
    have "map fst (filter (\<lambda>x. snd x = k) (sorted_by_score_reverse ?L)) =
            map fst (filter (\<lambda>x. snd x = k) ?L)"
      by (simp only: ties_sorted_by_score_reverse)
    also have "\<dots> = filter (\<lambda>p. sc p = k \<and> 0 < k) files"
      by (rule scored_filter_fst)
    also have "\<dots> = filter (\<lambda>p. score_file fs prefs now query p = Inr k \<and> 0 < k) files"
      using sc by (intro filter_cong) auto
    finally show ?thesis .
  qed
  let ?A = "filter (\<lambda>x. 0 < snd x) (map (\<lambda>p. (p, api_score_file fs now query p)) files)"
  have api_pos: "\<forall>x\<in>set (api_rank_search_results fs now files query). 0 < snd x"
    by (simp add: api_rank_search_results_eq set_sorted_by_score_reverse)
  have api_ties: "map fst (filter (\<lambda>x. snd x = k) (api_rank_search_results fs now files query)) =
                    filter (\<lambda>p. api_score_file fs now query p = k \<and> 0 < k) files" for k
    by (simp only: api_rank_search_results_eq ties_sorted_by_score_reverse scored_filter_fst)
  have api_desc:
    "sorted_wrt (\<lambda>a b. snd b \<le> snd a) (api_rank_search_results fs now files query)"
    unfolding api_rank_search_results_eq by (rule descending_sorted_by_score_reverse)
  have "\<exists>out. rank_search_results fs prefs now files query = Inr out
            \<and> (\<forall>x\<in>set out. 0 < snd x)
            \<and> sorted_wrt (\<lambda>a b. snd b \<le> snd a) out
            \<and> (\<forall>k. map fst (filter (\<lambda>x. snd x = k) out) =
                     filter (\<lambda>p. score_file fs prefs now query p = Inr k \<and> 0 < k) files)"
    by (intro exI[of _ "sorted_by_score_reverse ?L"] conjI allI out pos ties
        descending_sorted_by_score_reverse)
  then show ?thesis
    by (intro conjI allI api_pos api_desc api_ties)
qed

theorem ranker_filter_and_order_witness:
  "\<exists>out. rank_search_results ex_fs ex_prefs ex_now [ex_photo, ex_backup, ex_report]
           ''report.pdf'' = Inr out
     \<and> (\<forall>x\<in>set out. 0 < snd x)
     \<and> sorted_wrt (\<lambda>a b. snd b \<le> snd a) out
     \<and> (\<forall>k. map fst (filter (\<lambda>x. snd x = k) out) =
              filter (\<lambda>p. score_file ex_fs ex_prefs ex_now ''report.pdf'' p = Inr k \<and> 0 < k)
                [ex_photo, ex_backup, ex_report])"
proof -
  have h: "\<forall>p\<in>set [ex_photo, ex_backup, ex_report]. stat ex_fs p \<noteq> None"
    by (simp add: ex_defs)
  from ranker_filter_and_order [OF h] show ?thesis
    by (rule conjunct1)
qed

section \<open>Exact matches and substring matches\<close>

lemma recency_bonus_bounds: "0 \<le> recency_bonus now t \<and> recency_bonus now t \<le> 1"
  by (simp add: recency_bonus_def)

lemma preference_bonus_bounds:
  assumes "\<forall>c pref. prefs c = Some pref \<longrightarrow> 0 \<le> confidence pref \<and> confidence pref \<le> 1"
  shows "0 \<le> preference_bonus prefs p \<and> preference_bonus prefs p \<le> 1"
  using assms by (auto simp: preference_bonus_def split: option.splits)

lemma word_bonus_all:
  assumes "contains query (lower (name p))"
  shows "word_bonus query p = 2 * of_nat (length (split query))"
proof -
  have "\<forall>w\<in>set (split query). contains w (lower (name p))"
    using assms split_contained contains_trans by blast
  then have "filter (\<lambda>word. contains word (lower (name p))) (split query) = split query"
    by (simp add: filter_id_conv)
  then show ?thesis by (simp add: word_bonus_def)
qed

lemma contains_refl: "contains q q"
  by (simp add: contains_sublist)

lemma api_score_file_eq:
  "api_score_file fs now query p =
     match_bonus query p + word_bonus query p
       + (case stat fs p of None \<Rightarrow> 0 | Some st \<Rightarrow> recency_bonus now (st_mtime st))"
  by (simp add: api_score_file_def name_score_eq recent_bonus_eq split: option.splits)

lemma score_file_eq:
  "stat fs p = Some st \<Longrightarrow>
     score_file fs prefs now query p =
       Inr (match_bonus query p + word_bonus query p + recency_bonus now (st_mtime st)
            + preference_bonus prefs p)"
  by (simp add: score_file_def name_score_eq recent_bonus_eq location_bonus_eq)

lemma outranks:
  fixes sc :: "path \<Rightarrow> rat"
  assumes "e \<in> set files" "s \<in> set files" "0 < sc s" "sc s < sc e"
    and out: "out = sorted_by_score_reverse (filter (\<lambda>x. 0 < snd x) (map (\<lambda>p. (p, sc p)) files))"
  shows "(e, sc e) \<in> set out \<and> (s, sc s) \<in> set out
         \<and> (\<forall>i j. i < length out \<and> j < length out \<and> fst (out ! i) = e \<and> fst (out ! j) = s
                \<longrightarrow> i < j)"
proof -
  have mem: "x \<in> set out \<Longrightarrow> snd x = sc (fst x)" for x
    by (auto simp: out set_sorted_by_score_reverse)
  have desc: "sorted_wrt (\<lambda>a b. snd b \<le> snd a) out"
    unfolding out by (rule descending_sorted_by_score_reverse)
  have "(e, sc e) \<in> set out" "(s, sc s) \<in> set out"
    using assms(1-4) by (auto simp: out set_sorted_by_score_reverse)
  moreover have "i < j"
    if "i < length out" "j < length out" "fst (out ! i) = e" "fst (out ! j) = s" for i j
  proof -
    have "snd (out ! i) = sc e" "snd (out ! j) = sc s"
      using that mem[of "out ! i"] mem[of "out ! j"] by auto
    then have "snd (out ! j) < snd (out ! i)"
      using assms(4) by simp
    then show ?thesis
      using descending_index[OF desc that(1,2)] by blast
  qed
  ultimately show ?thesis by blast
qed

text \<open>
  C2. Let the query equal the lowercase name of a candidate \<open>e\<close>, let the lowercase
  name of a candidate \<open>s\<close> contain the query without being equal to it, and let every
  learned confidence lie between 0 and 1. Then the score of \<open>e\<close> is at least 10 and
  greater than the score of \<open>s\<close>, both are in the ranked list, and every entry of \<open>e\<close>
  stands before every entry of \<open>s\<close>. This holds for the command-line ranker, which
  returns when every modification time can be read, and for the ranker of the web service.
\<close>

theorem exact_match_outranks_substring:
  assumes e: "e \<in> set files" and s: "s \<in> set files"
    and exact: "lower (name e) = query"
    and sub: "contains query (lower (name s))" "lower (name s) \<noteq> query"
    and conf: "\<forall>c pref. prefs c = Some pref \<longrightarrow> 0 \<le> confidence pref \<and> confidence pref \<le> 1"
    and stat: "\<forall>p\<in>set files. stat fs p \<noteq> None"
  shows "(\<exists>out se ss. rank_search_results fs prefs now files query = Inr out
            \<and> score_file fs prefs now query e = Inr se
            \<and> score_file fs prefs now query s = Inr ss
            \<and> 10 \<le> se \<and> ss < se \<and> (e, se) \<in> set out \<and> (s, ss) \<in> set out
            \<and> (\<forall>i j. i < length out \<and> j < length out \<and> fst (out ! i) = e \<and> fst (out ! j) = s
                   \<longrightarrow> i < j))
         \<and> (\<exists>out se ss. api_rank_search_results fs now files query = out
            \<and> api_score_file fs now query e = se
            \<and> api_score_file fs now query s = ss
            \<and> 10 \<le> se \<and> ss < se \<and> (e, se) \<in> set out \<and> (s, ss) \<in> set out
            \<and> (\<forall>i j. i < length out \<and> j < length out \<and> fst (out ! i) = e \<and> fst (out ! j) = s
                   \<longrightarrow> i < j))"
proof -
  let ?n = "2 * rat_of_nat (length (split query))"
  have we: "word_bonus query e = ?n"
    using exact contains_refl[of query] by (intro word_bonus_all) simp
  have ws: "word_bonus query s = ?n"
    using sub(1) by (rule word_bonus_all)
  have me: "match_bonus query e = 10"
    using exact by (simp add: match_bonus_def)
  have ms: "match_bonus query s = 5"
    using sub by (simp add: match_bonus_def)
  have n0: "0 \<le> ?n" by simp
  \<comment> \<open>the command-line ranker\<close>
  define sc where "sc p = (case score_file fs prefs now query p of Inr v \<Rightarrow> v | Inl x \<Rightarrow> 0)" for p
  have sc: "\<forall>p\<in>set files. score_file fs prefs now query p = Inr (sc p)"
    using stat score_file_total[of fs _ prefs now query] by (fastforce simp: sc_def)
  have "stat fs e \<noteq> None" "stat fs s \<noteq> None"
    using stat e s by blast+
  then obtain ste sts where st: "stat fs e = Some ste" "stat fs s = Some sts"
    by blast
  have sce: "sc e = 10 + ?n + recency_bonus now (st_mtime ste) + preference_bonus prefs e"
    using score_file_eq[OF st(1), of prefs now query] by (simp add: sc_def me we)
  have scs: "sc s = 5 + ?n + recency_bonus now (st_mtime sts) + preference_bonus prefs s"
    using score_file_eq[OF st(2), of prefs now query] by (simp add: sc_def ms ws)
  have b1: "10 \<le> sc e"
    using sce n0 recency_bonus_bounds[of now "st_mtime ste"] preference_bonus_bounds[OF conf, of e]
    by linarith
  have b2: "sc s < sc e"
    using sce scs recency_bonus_bounds[of now "st_mtime ste"]
      recency_bonus_bounds[of now "st_mtime sts"]
      preference_bonus_bounds[OF conf, of e] preference_bonus_bounds[OF conf, of s]
    by linarith
  have b3: "0 < sc s"
    using scs n0 recency_bonus_bounds[of now "st_mtime sts"] preference_bonus_bounds[OF conf, of s]
    by linarith
  let ?out = "sorted_by_score_reverse (filter (\<lambda>x. 0 < snd x) (map (\<lambda>p. (p, sc p)) files))"
  have cli: "\<exists>out se ss. rank_search_results fs prefs now files query = Inr out
            \<and> score_file fs prefs now query e = Inr se
            \<and> score_file fs prefs now query s = Inr ss
            \<and> 10 \<le> se \<and> ss < se \<and> (e, se) \<in> set out \<and> (s, ss) \<in> set out
            \<and> (\<forall>i j. i < length out \<and> j < length out \<and> fst (out ! i) = e \<and> fst (out ! j) = s
                   \<longrightarrow> i < j)"
    using rank_search_results_eq[OF sc] sc e s b1 b2 outranks[OF e s b3 b2, of ?out]
    by (intro exI[of _ ?out] exI[of _ "sc e"] exI[of _ "sc s"]) simp
  \<comment> \<open>the ranker of the web service\<close>
  let ?re = "case stat fs e of None \<Rightarrow> 0 | Some st \<Rightarrow> recency_bonus now (st_mtime st)"
  let ?rs = "case stat fs s of None \<Rightarrow> 0 | Some st \<Rightarrow> recency_bonus now (st_mtime st)"
  have re: "0 \<le> ?re \<and> ?re \<le> 1" and rs: "0 \<le> ?rs \<and> ?rs \<le> 1"
    using recency_bonus_bounds by (auto split: option.splits)
  have ae: "api_score_file fs now query e = 10 + ?n + ?re"
    by (simp add: api_score_file_eq me we)
  have as: "api_score_file fs now query s = 5 + ?n + ?rs"
    by (simp add: api_score_file_eq ms ws)
  have a1: "10 \<le> api_score_file fs now query e"
    using ae n0 re by linarith
  have a2: "api_score_file fs now query s < api_score_file fs now query e"
    using ae as re rs by linarith
  have a3: "0 < api_score_file fs now query s"
    using as n0 rs by linarith
  have api: "\<exists>out se ss. api_rank_search_results fs now files query = out
            \<and> api_score_file fs now query e = se
            \<and> api_score_file fs now query s = ss
            \<and> 10 \<le> se \<and> ss < se \<and> (e, se) \<in> set out \<and> (s, ss) \<in> set out
            \<and> (\<forall>i j. i < length out \<and> j < length out \<and> fst (out ! i) = e \<and> fst (out ! j) = s
                   \<longrightarrow> i < j)"
    using a1 a2 outranks[OF e s a3 a2 api_rank_search_results_eq] by simp
  from cli api show ?thesis by (rule conjI)
qed

theorem exact_match_outranks_substring_witness:
  "\<exists>out se ss.
      rank_search_results ex_fs ex_prefs ex_now [ex_backup, ex_report] ''report.pdf'' = Inr out
      \<and> 10 \<le> se \<and> ss < se \<and> (ex_report, se) \<in> set out \<and> (ex_backup, ss) \<in> set out
      \<and> (\<forall>i j. i < length out \<and> j < length out
                \<and> fst (out ! i) = ex_report \<and> fst (out ! j) = ex_backup \<longrightarrow> i < j)"
proof -
  have e: "ex_report \<in> set [ex_backup, ex_report]" and s: "ex_backup \<in> set [ex_backup, ex_report]"
    by simp_all
  have exact: "lower (name ex_report) = ''report.pdf''"
    by (simp add: ex_defs name_def lower_def lower_char_def)
  have sub: "contains ''report.pdf'' (lower (name ex_backup))"
    "lower (name ex_backup) \<noteq> ''report.pdf''"
    by (simp_all add: ex_defs name_def lower_def lower_char_def)
  have conf: "\<forall>c pref. ex_prefs c = Some pref \<longrightarrow> 0 \<le> confidence pref \<and> confidence pref \<le> 1"
    by (auto simp: ex_prefs_def split: if_splits)
  have stat: "\<forall>p\<in>set [ex_backup, ex_report]. stat ex_fs p \<noteq> None"
    by (simp add: ex_defs)
  from exact_match_outranks_substring [OF e s exact sub conf stat, of ex_now]
  show ?thesis by blast
qed

lemma ranking_example:
  "rank_search_results ex_fs ex_prefs ex_now [ex_photo, ex_backup, ex_report] ''report.pdf''
     = Inr [(ex_report, 69 / 5), (ex_backup, 7)]"
  by code_simp

section \<open>Merging the results of the strategies\<close>

lemma first_index_append_old:
  "a \<in> set ys \<Longrightarrow> first_index (ys @ zs) a = first_index ys a"
  by (induction ys) (auto simp: first_index_def)

lemma first_index_less: "a \<in> set ys \<Longrightarrow> first_index ys a < length ys"
  by (induction ys) (auto simp: first_index_def)

lemma first_index_new: "a \<notin> set ys \<Longrightarrow> first_index (ys @ [a]) a = length ys"
  by (induction ys) (auto simp: first_index_def)

text \<open>
  The invariant of the two loops that remove duplicates, for a key \<open>f\<close> of the entries:
  \<open>r\<close> holds one entry for every key of \<open>ys\<close>, each the first entry of \<open>ys\<close> with its
  key, in the order of these first entries.
\<close>

lemma first_seen_skip:
  assumes "distinct (map f r)" "f ` set r = f ` set ys" "set r \<subseteq> set ys"
    and "sorted_wrt (\<lambda>a b. first_index (map f ys) (f a) < first_index (map f ys) (f b)) r"
    and "f x \<in> f ` set r"
  shows "f ` set r = f ` set (ys @ [x]) \<and> set r \<subseteq> set (ys @ [x])
         \<and> sorted_wrt (\<lambda>a b. first_index (map f (ys @ [x])) (f a)
                              < first_index (map f (ys @ [x])) (f b)) r"
proof -
  have "first_index (map f (ys @ [x])) (f a) = first_index (map f ys) (f a)" if "a \<in> set r" for a
    using that assms(3) first_index_append_old[of "f a" "map f ys" "[f x]"] by auto
  then have "sorted_wrt (\<lambda>a b. first_index (map f (ys @ [x])) (f a)
                              < first_index (map f (ys @ [x])) (f b)) r"
    using assms(4) by (auto elim!: sorted_wrt_mono_rel[rotated])
  then show ?thesis using assms(2,3,5) by auto
qed

lemma first_seen_add:
  assumes "distinct (map f r)" "f ` set r = f ` set ys" "set r \<subseteq> set ys"
    and "sorted_wrt (\<lambda>a b. first_index (map f ys) (f a) < first_index (map f ys) (f b)) r"
    and "f x \<notin> f ` set r"
  shows "distinct (map f (r @ [x])) \<and> f ` set (r @ [x]) = f ` set (ys @ [x])
         \<and> set (r @ [x]) \<subseteq> set (ys @ [x])
         \<and> sorted_wrt (\<lambda>a b. first_index (map f (ys @ [x])) (f a)
                              < first_index (map f (ys @ [x])) (f b)) (r @ [x])"
proof -
  have old: "first_index (map f (ys @ [x])) (f a) = first_index (map f ys) (f a)"
    if "a \<in> set r" for a
    using that assms(3) first_index_append_old[of "f a" "map f ys" "[f x]"] by auto
  have new: "first_index (map f (ys @ [x])) (f x) = length ys"
    using assms(2,5) first_index_new[of "f x" "map f ys"] by simp
  have lt: "first_index (map f ys) (f a) < length ys" if "a \<in> set r" for a
    using that assms(3) first_index_less[of "f a" "map f ys"] by auto
  have "sorted_wrt (\<lambda>a b. first_index (map f (ys @ [x])) (f a)
                          < first_index (map f (ys @ [x])) (f b)) r"
    using assms(4) old by (auto elim!: sorted_wrt_mono_rel[rotated])
  then have "sorted_wrt (\<lambda>a b. first_index (map f (ys @ [x])) (f a)
                          < first_index (map f (ys @ [x])) (f b)) (r @ [x])"
    using old new lt by (simp add: sorted_wrt_append)
  then show ?thesis using assms(1,2,3,5) by auto
qed

lemma unique_loop_first_seen:
  assumes "seen = set r" "distinct r" "set r = set ys"
    and "sorted_wrt (\<lambda>a b. first_index ys a < first_index ys b) r"
  shows "distinct (unique_loop xs r seen) \<and> set (unique_loop xs r seen) = set (ys @ xs)
         \<and> sorted_wrt (\<lambda>a b. first_index (ys @ xs) a < first_index (ys @ xs) b)
              (unique_loop xs r seen)"
  using assms
proof (induction xs arbitrary: r seen ys)
  case Nil
  then show ?case by simp
next
  case (Cons x xs)
  show ?case
  proof (cases "x \<in> seen")
    case True
    have "set r = set (ys @ [x]) \<and> set r \<subseteq> set (ys @ [x])
          \<and> sorted_wrt (\<lambda>a b. first_index (ys @ [x]) a < first_index (ys @ [x]) b) r"
      using first_seen_skip[of "\<lambda>a. a" r ys x] Cons.prems True by simp
    then have "distinct (unique_loop xs r seen) \<and> set (unique_loop xs r seen) = set ((ys @ [x]) @ xs)
         \<and> sorted_wrt (\<lambda>a b. first_index ((ys @ [x]) @ xs) a < first_index ((ys @ [x]) @ xs) b)
              (unique_loop xs r seen)"
      using Cons.prems by (intro Cons.IH) auto
    then show ?thesis using True by simp
  next
    case False
    have "distinct (r @ [x]) \<and> set (r @ [x]) = set (ys @ [x]) \<and> set (r @ [x]) \<subseteq> set (ys @ [x])
          \<and> sorted_wrt (\<lambda>a b. first_index (ys @ [x]) a < first_index (ys @ [x]) b) (r @ [x])"
      using first_seen_add[of "\<lambda>a. a" r ys x] Cons.prems False by simp
    then have "distinct (unique_loop xs (r @ [x]) (insert x seen))
         \<and> set (unique_loop xs (r @ [x]) (insert x seen)) = set ((ys @ [x]) @ xs)
         \<and> sorted_wrt (\<lambda>a b. first_index ((ys @ [x]) @ xs) a < first_index ((ys @ [x]) @ xs) b)
              (unique_loop xs (r @ [x]) (insert x seen))"
      using Cons.prems by (intro Cons.IH) auto
    then show ?thesis using False by simp
  qed
qed

lemma api_unique_loop_first_seen:
  assumes "seen = str ` set r" "distinct (map str r)" "str ` set r = str ` set ys" "set r \<subseteq> set ys"
    and "sorted_wrt (\<lambda>a b. first_index (map str ys) (str a) < first_index (map str ys) (str b)) r"
  shows "distinct (map str (api_unique_loop xs r seen))
         \<and> str ` set (api_unique_loop xs r seen) = str ` set (ys @ xs)
         \<and> set (api_unique_loop xs r seen) \<subseteq> set (ys @ xs)
         \<and> sorted_wrt (\<lambda>a b. first_index (map str (ys @ xs)) (str a)
                              < first_index (map str (ys @ xs)) (str b))
              (api_unique_loop xs r seen)"
  using assms
proof (induction xs arbitrary: r seen ys)
  case Nil
  then show ?case by simp
next
  case (Cons x xs)
  show ?case
  proof (cases "str x \<in> seen")
    case True
    have "str ` set r = str ` set (ys @ [x]) \<and> set r \<subseteq> set (ys @ [x])
          \<and> sorted_wrt (\<lambda>a b. first_index (map str (ys @ [x])) (str a)
                               < first_index (map str (ys @ [x])) (str b)) r"
      using first_seen_skip[of str r ys x] Cons.prems True by simp
    then have "distinct (map str (api_unique_loop xs r seen))
         \<and> str ` set (api_unique_loop xs r seen) = str ` set ((ys @ [x]) @ xs)
         \<and> set (api_unique_loop xs r seen) \<subseteq> set ((ys @ [x]) @ xs)
         \<and> sorted_wrt (\<lambda>a b. first_index (map str ((ys @ [x]) @ xs)) (str a)
                              < first_index (map str ((ys @ [x]) @ xs)) (str b))
              (api_unique_loop xs r seen)"
      using Cons.prems by (intro Cons.IH) auto
    then show ?thesis using True by simp
  next
    case False
    have "distinct (map str (r @ [x])) \<and> str ` set (r @ [x]) = str ` set (ys @ [x])
          \<and> set (r @ [x]) \<subseteq> set (ys @ [x])
          \<and> sorted_wrt (\<lambda>a b. first_index (map str (ys @ [x])) (str a)
                               < first_index (map str (ys @ [x])) (str b)) (r @ [x])"
      using first_seen_add[of str r ys x] Cons.prems False by simp
    then have "distinct (map str (api_unique_loop xs (r @ [x]) (insert (str x) seen)))
         \<and> str ` set (api_unique_loop xs (r @ [x]) (insert (str x) seen)) = str ` set ((ys @ [x]) @ xs)
         \<and> set (api_unique_loop xs (r @ [x]) (insert (str x) seen)) \<subseteq> set ((ys @ [x]) @ xs)
         \<and> sorted_wrt (\<lambda>a b. first_index (map str ((ys @ [x]) @ xs)) (str a)
                              < first_index (map str ((ys @ [x]) @ xs)) (str b))
              (api_unique_loop xs (r @ [x]) (insert (str x) seen))"
      using Cons.prems by (intro Cons.IH) auto
    then show ?thesis using False by (simp add: Let_def)
  qed
qed

text \<open>
  C4 (as amended). When the five strategies return, the merged candidate list holds
  every path they found exactly once, in the order in which the paths were first found.
  The command-line engine compares paths, the web service compares the strings of the
  paths and keeps the first path of every string. Paths are compared as they are
  spelled: neither engine brings them into a canonical form.
\<close>

theorem merged_candidates_first_seen:
  assumes cli: "run_strategies fs now (lower query) (default_dirs home) = Inr found"
    and api: "run_strategies fs now (lower query)
                (if file_paths = [] then default_dirs home else file_paths) = Inr found'"
  shows "(\<exists>merged. unique_files fs home now query = Inr merged
            \<and> distinct merged \<and> set merged = set found
            \<and> sorted_wrt (\<lambda>a b. first_index found a < first_index found b) merged)
         \<and> (\<exists>merged. api_unique_files fs home now query file_paths = Inr merged
            \<and> distinct (map str merged) \<and> str ` set merged = str ` set found'
            \<and> set merged \<subseteq> set found'
            \<and> sorted_wrt (\<lambda>a b. first_index (map str found') (str a)
                                 < first_index (map str found') (str b)) merged)"
proof -
  have "distinct (unique_loop found [] {}) \<and> set (unique_loop found [] {}) = set ([] @ found)
        \<and> sorted_wrt (\<lambda>a b. first_index ([] @ found) a < first_index ([] @ found) b)
             (unique_loop found [] {})"
    by (rule unique_loop_first_seen) simp_all
  then have 1: "\<exists>merged. unique_files fs home now query = Inr merged
            \<and> distinct merged \<and> set merged = set found
            \<and> sorted_wrt (\<lambda>a b. first_index found a < first_index found b) merged"
    using cli by (simp add: unique_files_def)
  have "distinct (map str (api_unique_loop found' [] {}))
        \<and> str ` set (api_unique_loop found' [] {}) = str ` set ([] @ found')
        \<and> set (api_unique_loop found' [] {}) \<subseteq> set ([] @ found')
        \<and> sorted_wrt (\<lambda>a b. first_index (map str ([] @ found')) (str a)
                             < first_index (map str ([] @ found')) (str b))
             (api_unique_loop found' [] {})"
    by (rule api_unique_loop_first_seen) simp_all
  then have 2: "\<exists>merged. api_unique_files fs home now query file_paths = Inr merged
            \<and> distinct (map str merged) \<and> str ` set merged = str ` set found'
            \<and> set merged \<subseteq> set found'
            \<and> sorted_wrt (\<lambda>a b. first_index (map str found') (str a)
                                 < first_index (map str found') (str b)) merged"
    using api by (simp add: api_unique_files_def Let_def)
  from 1 2 show ?thesis by (rule conjI)
qed

theorem merged_candidates_first_seen_witness:
  "(\<exists>merged. unique_files ex_fs ex_home ex_now ''photo'' = Inr merged
      \<and> distinct merged \<and> set merged = set [ex_photo, ex_photo]
      \<and> sorted_wrt (\<lambda>a b. first_index [ex_photo, ex_photo] a < first_index [ex_photo, ex_photo] b)
           merged)
   \<and> (\<exists>merged. api_unique_files ex_fs ex_home ex_now ''photo'' [] = Inr merged
      \<and> distinct (map str merged) \<and> str ` set merged = str ` set [ex_photo, ex_photo]
      \<and> set merged \<subseteq> set [ex_photo, ex_photo]
      \<and> sorted_wrt (\<lambda>a b. first_index (map str [ex_photo, ex_photo]) (str a)
                           < first_index (map str [ex_photo, ex_photo]) (str b)) merged)"
proof -
  have found: "run_strategies ex_fs ex_now (lower ''photo'') (default_dirs ex_home)
                 = Inr [ex_photo, ex_photo]"
    by code_simp
  then have found': "run_strategies ex_fs ex_now (lower ''photo'')
                 (if ([] :: path list) = [] then default_dirs ex_home else [])
                 = Inr [ex_photo, ex_photo]"
    by simp
  from merged_candidates_first_seen [OF found found'] show ?thesis .
qed

text \<open>
  The web service, asked to search \<open>/srv/a\<close> and \<open>/srv/a/../a\<close>, keeps the one file
  of that directory twice: the two entries differ as strings and have the same canonical
  path.
\<close>

theorem canonical_duplicates_counterexample:
  "api_unique_files alias_fs ex_home ex_now ''f.dat'' [[''srv'', ''a''], [''srv'', ''a'', ''..'', ''a'']]
     = Inr [[''srv'', ''a'', ''f.dat''], [''srv'', ''a'', ''..'', ''a'', ''f.dat'']]
   \<and> canonical [''srv'', ''a'', ''f.dat''] = canonical [''srv'', ''a'', ''..'', ''a'', ''f.dat'']"
  by code_simp

section \<open>The strategies as filters of the files in scope\<close>

lemma for_each_file_append_if:
  "\<forall>p\<in>set ps. test p = Inr (P p) \<Longrightarrow>
     for_each_file (\<lambda>p. append_if (test p) p) ps acc = Inr (acc @ filter P ps)"
  by (induction ps arbitrary: acc) (auto simp: append_if_def)

lemma scanned_Nil: "scanned fs [] = []"
  by (simp add: scanned_def)

lemma scanned_Cons:
  "scanned fs (d # dirs) = (if exists fs d then rglob fs d else []) @ scanned fs dirs"
  by (simp add: scanned_def)

lemma for_each_dir_append_if:
  "\<forall>p\<in>set (scanned fs dirs). test p = Inr (P p) \<Longrightarrow>
     for_each_dir fs (\<lambda>d p. append_if (test p) p) dirs acc
       = Inr (acc @ filter P (scanned fs dirs))"
proof (induction dirs arbitrary: acc)
  case Nil
  then show ?case by (simp add: scanned_Nil)
next
  case (Cons d dirs)
  have rest: "\<forall>p\<in>set (scanned fs dirs). test p = Inr (P p)"
    using Cons.prems by (simp add: scanned_Cons)
  show ?case
  proof (cases "exists fs d")
    case True
    then have "\<forall>p\<in>set (rglob fs d). test p = Inr (P p)"
      using Cons.prems by (simp add: scanned_Cons)
    then have "for_each_file (\<lambda>p. append_if (test p) p) (rglob fs d) acc
                 = Inr (acc @ filter P (rglob fs d))"
      by (rule for_each_file_append_if)
    then show ?thesis
      using True Cons.IH[OF rest] by (simp add: scanned_Cons)
  next
    case False
    then show ?thesis
      using Cons.IH[OF rest] by (simp add: scanned_Cons)
  qed
qed

lemma filename_test_eq:
  "is_file fs p \<longrightarrow> stat fs p \<noteq> None \<Longrightarrow>
     filename_test fs query p = Inr (nonempty_file fs p \<and> contains query (lower (name p)))"
  by (auto simp: filename_test_def nonempty_file_def split: option.splits)

lemma search_by_filename_eq:
  assumes "\<forall>p\<in>set (scanned fs dirs). is_file fs p \<longrightarrow> stat fs p \<noteq> None"
  shows "search_by_filename fs query dirs =
           Inr (filter (\<lambda>p. nonempty_file fs p \<and> contains query (lower (name p)))
                  (scanned fs dirs))"
  unfolding search_by_filename_def
  using for_each_dir_append_if[of fs dirs "filename_test fs query"
      "\<lambda>p. nonempty_file fs p \<and> contains query (lower (name p))" "[]"]
    assms filename_test_eq[of fs _ query]
  by simp

section \<open>The content strategy\<close>

lemma content_loop_eq:
  assumes "\<forall>p\<in>set ps. is_file fs p \<and> lower (path_suffix p) \<in> set text_extensions \<longrightarrow> stat fs p \<noteq> None"
  shows "for_each_file (content_body fs query) ps (results, opened) =
           Inr (results @ filter (\<lambda>p. text_file_below fs (1024 * 1024) p \<and> content_matches fs query p) ps,
                opened @ filter (text_file_below fs (1024 * 1024)) ps)"
  using assms
proof (induction ps arbitrary: results opened)
  case Nil
  then show ?case by simp
next
  case (Cons p ps)
  have step: "content_body fs query p (results, opened) =
                Inr (results @ filter (\<lambda>p. text_file_below fs (1024 * 1024) p \<and> content_matches fs query p) [p],
                     opened @ filter (text_file_below fs (1024 * 1024)) [p])"
    using Cons.prems
    by (auto simp: content_body_def text_file_below_def content_matches_def split: option.splits)
  have rest: "\<forall>p\<in>set ps. is_file fs p \<and> lower (path_suffix p) \<in> set text_extensions
                 \<longrightarrow> stat fs p \<noteq> None"
    using Cons.prems by simp
  show ?case
    by (simp add: step Cons.IH[OF rest])
qed

lemma content_dirs_eq:
  assumes "\<forall>p\<in>set (scanned fs dirs).
             is_file fs p \<and> lower (path_suffix p) \<in> set text_extensions \<longrightarrow> stat fs p \<noteq> None"
  shows "for_each_dir fs (\<lambda>search_dir. content_body fs query) dirs (results, opened) =
           Inr (results @ filter (\<lambda>p. text_file_below fs (1024 * 1024) p \<and> content_matches fs query p)
                            (scanned fs dirs),
                opened @ filter (text_file_below fs (1024 * 1024)) (scanned fs dirs))"
  using assms
proof (induction dirs arbitrary: results opened)
  case Nil
  then show ?case by (simp add: scanned_Nil)
next
  case (Cons d dirs)
  have rest: "\<forall>p\<in>set (scanned fs dirs).
                is_file fs p \<and> lower (path_suffix p) \<in> set text_extensions \<longrightarrow> stat fs p \<noteq> None"
    using Cons.prems by (simp add: scanned_Cons)
  show ?case
  proof (cases "exists fs d")
    case True
    then have "\<forall>p\<in>set (rglob fs d).
                 is_file fs p \<and> lower (path_suffix p) \<in> set text_extensions \<longrightarrow> stat fs p \<noteq> None"
      using Cons.prems by (simp add: scanned_Cons)
    then show ?thesis
      using True Cons.IH[OF rest] by (simp add: content_loop_eq scanned_Cons)
  next
    case False
    then show ?thesis
      using Cons.IH[OF rest] by (simp add: scanned_Cons)
  qed
qed

text \<open>
  C7 (as amended). When \<open>stat\<close> succeeds on the regular files of the allow-list, the
  content strategy returns exactly the files in scope that are regular, have an extension
  of the allow-list (.txt, .md, .py, .js, .html, .css, .json) and a size greater than 0 and
  less than 1 MiB, can be read, and whose lowercased text contains the query, in the
  order of the scan. The files it opens are exactly the files within these bounds of
  extension and size; any other file is never opened.
\<close>

theorem content_keywords_exact:
  assumes "\<forall>p\<in>set (scanned fs dirs).
             is_file fs p \<and> lower (path_suffix p) \<in> set text_extensions \<longrightarrow> stat fs p \<noteq> None"
  shows "search_by_content_keywords fs query dirs =
           Inr (filter (\<lambda>p. text_file_below fs 1048576 p \<and> content_matches fs query p)
                  (scanned fs dirs))
         \<and> search_by_content_keywords_io fs query dirs =
           Inr (filter (\<lambda>p. text_file_below fs 1048576 p \<and> content_matches fs query p)
                  (scanned fs dirs),
                filter (text_file_below fs 1048576) (scanned fs dirs))"
  using content_dirs_eq[OF assms, of query "[]" "[]"]
  by (simp add: search_by_content_keywords_def search_by_content_keywords_io_def)

theorem content_keywords_exact_witness:
  "search_by_content_keywords ex_fs ''report'' (default_dirs ex_home) = Inr [ex_notes]
   \<and> search_by_content_keywords_io ex_fs ''report'' (default_dirs ex_home)
       = Inr ([ex_notes], [ex_notes])"
proof -
  have sc: "scanned ex_fs (default_dirs ex_home) =
              [ex_report, joinpath (joinpath ex_home ''Documents'') ''old'', ex_backup,
               joinpath (joinpath ex_home ''Documents'') ''work'', ex_notes, ex_photo, ex_empty]"
    by code_simp
  have h: "\<forall>p\<in>set (scanned ex_fs (default_dirs ex_home)).
             is_file ex_fs p \<and> lower (path_suffix p) \<in> set text_extensions \<longrightarrow> stat ex_fs p \<noteq> None"
    unfolding sc by code_simp
  have f1: "filter (\<lambda>p. text_file_below ex_fs 1048576 p \<and> content_matches ex_fs ''report'' p)
              (scanned ex_fs (default_dirs ex_home)) = [ex_notes]"
    unfolding sc by code_simp
  have f2: "filter (text_file_below ex_fs 1048576) (scanned ex_fs (default_dirs ex_home)) = [ex_notes]"
    unfolding sc by code_simp
  from content_keywords_exact [OF h, of "''report''"] show ?thesis
    by (simp only: f1 f2)
qed

text \<open>
  A text file of exactly 1 MiB whose text contains the query satisfies the bounds of the
  claim (size at most 1 MiB) and is not returned.
\<close>

theorem content_one_mebibyte_counterexample:
  "search_by_content_keywords mib_fs ''needle'' [[''data'']] = Inr []
   \<and> is_file mib_fs [''data'', ''big.txt'']
   \<and> lower (path_suffix [''data'', ''big.txt'']) \<in> set text_extensions
   \<and> stat mib_fs [''data'', ''big.txt''] = Some \<lparr>st_size = 1048576, st_mtime = 99 * day\<rparr>
   \<and> (0::int) < 1048576 \<and> (1048576::int) \<le> 1024 * 1024
   \<and> read_text mib_fs [''data'', ''big.txt''] = Some ''a needle in the hay''
   \<and> contains ''needle'' (lower ''a needle in the hay'')
   \<and> [''data'', ''big.txt''] \<in> set (scanned mib_fs [[''data'']])"
  by code_simp

section \<open>The keyword strategies\<close>

lemma file_type_test_eq:
  "is_file fs p \<longrightarrow> stat fs p \<noteq> None \<Longrightarrow>
     file_type_test fs extensions p
       = Inr (nonempty_file fs p \<and> lower (path_suffix p) \<in> set extensions)"
  by (auto simp: file_type_test_def nonempty_file_def split: option.splits)

lemma recent_test_eq:
  "is_file fs p \<longrightarrow> stat fs p \<noteq> None \<Longrightarrow>
     recent_test fs t p = Inr (nonempty_file fs p \<and> modified_after fs t p)"
  by (auto simp: recent_test_def nonempty_file_def modified_after_def split: option.splits)

lemma old_test_eq:
  "is_file fs p \<longrightarrow> stat fs p \<noteq> None \<Longrightarrow>
     old_test fs t p = Inr (nonempty_file fs p \<and> modified_before fs t p)"
  by (auto simp: old_test_def nonempty_file_def modified_before_def split: option.splits)

lemma large_test_eq:
  "is_file fs p \<longrightarrow> stat fs p \<noteq> None \<Longrightarrow> large_test fs t p = Inr (size_above fs t p)"
  by (auto simp: large_test_def size_above_def split: option.splits)

lemma small_test_eq:
  "is_file fs p \<longrightarrow> stat fs p \<noteq> None \<Longrightarrow> small_test fs t p = Inr (size_between fs 0 t p)"
  by (auto simp: small_test_def size_between_def split: option.splits)

lemma list_ex_has_word: "list_ex (\<lambda>word. contains word query) bucket = has_word bucket query"
  by (simp add: has_word_def list_ex_iff)

lemma target_category_first:
  "i < length kws \<Longrightarrow> contains (fst (kws ! i)) query \<Longrightarrow>
   \<forall>j<i. \<not> contains (fst (kws ! j)) query \<Longrightarrow>
     target_category_loop kws query = Some (snd (kws ! i))"
proof (induction kws arbitrary: i)
  case Nil
  then show ?case by simp
next
  case (Cons kw kws)
  obtain keyword category where kw: "kw = (keyword, category)" by (cases kw)
  show ?case
  proof (cases i)
    case 0
    with Cons.prems kw show ?thesis by simp
  next
    case (Suc i')
    have "\<not> contains keyword query"
      using Cons.prems(3) Suc kw by force
    moreover have "target_category_loop kws query = Some (snd (kws ! i'))"
      using Cons.prems Suc by (intro Cons.IH) auto
    ultimately show ?thesis using kw Suc by simp
  qed
qed

lemma target_extensions:
  assumes "c \<in> snd ` set type_keywords"
  shows "\<exists>exts. map_of file_categories c = Some exts
           \<and> (\<forall>e. e \<in> set exts \<longleftrightarrow> categorize_in file_categories e = c)"
proof -
  from assms consider "c = Images" | "c = Documents" | "c = Audio" | "c = Video" | "c = Code"
    by (auto simp: type_keywords_def)
  then show ?thesis
  proof cases
    case 1 then show ?thesis by (auto simp: file_categories_def)
  next
    case 2 then show ?thesis by (auto simp: file_categories_def)
  next
    case 3 then show ?thesis by (auto simp: file_categories_def)
  next
    case 4 then show ?thesis by (auto simp: file_categories_def)
  next
    case 5 then show ?thesis by (auto simp: file_categories_def)
  qed
qed

lemma search_by_file_type_eq:
  assumes stat: "\<forall>p\<in>set (scanned fs dirs). is_file fs p \<longrightarrow> stat fs p \<noteq> None"
    and i: "i < length type_keywords" "contains (fst (type_keywords ! i)) query"
      "\<forall>j<i. \<not> contains (fst (type_keywords ! j)) query"
  shows "search_by_file_type fs query dirs =
           Inr (filter (\<lambda>p. nonempty_file fs p \<and> categorize_file p = snd (type_keywords ! i))
                  (scanned fs dirs))"
proof -
  let ?c = "snd (type_keywords ! i)"
  have target: "target_category_loop type_keywords query = Some ?c"
    using i by (rule target_category_first)
  have "?c \<in> snd ` set type_keywords"
    using i(1) by (metis image_eqI nth_mem)
  then obtain exts where exts: "map_of file_categories ?c = Some exts"
    "\<forall>e. e \<in> set exts \<longleftrightarrow> categorize_in file_categories e = ?c"
    using target_extensions by blast
  have "for_each_dir fs (\<lambda>search_dir file_path. append_if (file_type_test fs exts file_path) file_path)
          dirs [] =
        Inr ([] @ filter (\<lambda>p. nonempty_file fs p \<and> lower (path_suffix p) \<in> set exts) (scanned fs dirs))"
    using stat file_type_test_eq[of fs _ exts] by (intro for_each_dir_append_if) simp
  moreover have "(\<lambda>p. nonempty_file fs p \<and> lower (path_suffix p) \<in> set exts)
                  = (\<lambda>p. nonempty_file fs p \<and> categorize_file p = ?c)"
    using exts(2) by (simp add: categorize_file_def)
  ultimately show ?thesis
    using target exts(1) by (simp add: search_by_file_type_def)
qed

lemma search_by_date_context_recent:
  assumes stat: "\<forall>p\<in>set (scanned fs dirs). is_file fs p \<longrightarrow> stat fs p \<noteq> None"
    and w: "has_word [''today'', ''recent'', ''new'', ''latest''] query"
  shows "search_by_date_context fs now query dirs =
           Inr (filter (\<lambda>p. nonempty_file fs p \<and> modified_after fs (now - 7 * day) p)
                  (scanned fs dirs))"
proof -
  have "for_each_dir fs (\<lambda>search_dir file_path.
            append_if (recent_test fs (now - 7 * day) file_path) file_path) dirs [] =
        Inr ([] @ filter (\<lambda>p. nonempty_file fs p \<and> modified_after fs (now - 7 * day) p)
                    (scanned fs dirs))"
    using stat recent_test_eq[of fs _ "now - 7 * day"] by (intro for_each_dir_append_if) simp
  then show ?thesis
    using w by (simp only: search_by_date_context_def list_ex_has_word Let_def if_True append_Nil)
qed

lemma search_by_date_context_old:
  assumes stat: "\<forall>p\<in>set (scanned fs dirs). is_file fs p \<longrightarrow> stat fs p \<noteq> None"
    and w: "\<not> has_word [''today'', ''recent'', ''new'', ''latest''] query"
      "has_word [''old'', ''archive'', ''backup''] query"
  shows "search_by_date_context fs now query dirs =
           Inr (filter (\<lambda>p. nonempty_file fs p \<and> modified_before fs (now - 90 * day) p)
                  (scanned fs dirs))"
proof -
  have "for_each_dir fs (\<lambda>search_dir file_path.
            append_if (old_test fs (now - 90 * day) file_path) file_path) dirs [] =
        Inr ([] @ filter (\<lambda>p. nonempty_file fs p \<and> modified_before fs (now - 90 * day) p)
                    (scanned fs dirs))"
    using stat old_test_eq[of fs _ "now - 90 * day"] by (intro for_each_dir_append_if) simp
  then show ?thesis
    using w
    by (simp only: search_by_date_context_def list_ex_has_word Let_def if_True if_False append_Nil)
qed

lemma search_by_size_context_large:
  assumes stat: "\<forall>p\<in>set (scanned fs dirs). is_file fs p \<longrightarrow> stat fs p \<noteq> None"
    and w: "has_word [''large'', ''big'', ''huge''] query"
  shows "search_by_size_context fs query dirs =
           Inr (filter (size_above fs (10 * 1024 * 1024)) (scanned fs dirs))"
proof -
  have "for_each_dir fs (\<lambda>search_dir file_path.
            append_if (large_test fs (10 * 1024 * 1024) file_path) file_path) dirs [] =
        Inr ([] @ filter (size_above fs (10 * 1024 * 1024)) (scanned fs dirs))"
    using stat large_test_eq[of fs _ "10 * 1024 * 1024"] by (intro for_each_dir_append_if) simp
  then show ?thesis
    using w by (simp only: search_by_size_context_def list_ex_has_word Let_def if_True append_Nil)
qed

lemma search_by_size_context_small:
  assumes stat: "\<forall>p\<in>set (scanned fs dirs). is_file fs p \<longrightarrow> stat fs p \<noteq> None"
    and w: "\<not> has_word [''large'', ''big'', ''huge''] query" "has_word [''small'', ''tiny''] query"
  shows "search_by_size_context fs query dirs =
           Inr (filter (size_between fs 0 (100 * 1024)) (scanned fs dirs))"
proof -
  have "for_each_dir fs (\<lambda>search_dir file_path.
            append_if (small_test fs (100 * 1024) file_path) file_path) dirs [] =
        Inr ([] @ filter (size_between fs 0 (100 * 1024)) (scanned fs dirs))"
    using stat small_test_eq[of fs _ "100 * 1024"] by (intro for_each_dir_append_if) simp
  then show ?thesis
    using w
    by (simp only: search_by_size_context_def list_ex_has_word Let_def if_True if_False append_Nil)
qed

text \<open>
  C8. When \<open>stat\<close> succeeds on the regular files in scope: the type strategy returns the
  non-empty files of the category of the first keyword of \<open>type_keywords\<close> that occurs
  in the query, whatever keywords occur after it; the date strategy returns the non-empty
  files modified after \<open>now\<close> minus 7 days as soon as a word of the recent bucket
  occurs, and the non-empty files modified before \<open>now\<close> minus 90 days only when no
  recent word and some old word occurs; the size strategy returns the files larger than
  10 MiB as soon as a word of the large bucket occurs, and the files of a size greater
  than 0 and less than 100 KiB only when no large word and some small word occurs.
\<close>

theorem first_bucket_wins:
  assumes "\<forall>p\<in>set (scanned fs dirs). is_file fs p \<longrightarrow> stat fs p \<noteq> None"
  shows "(\<forall>i<length type_keywords.
            contains (fst (type_keywords ! i)) query
            \<and> (\<forall>j<i. \<not> contains (fst (type_keywords ! j)) query)
            \<longrightarrow> search_by_file_type fs query dirs =
                  Inr (filter (\<lambda>p. nonempty_file fs p
                                    \<and> categorize_file p = snd (type_keywords ! i))
                         (scanned fs dirs)))
         \<and> (has_word [''today'', ''recent'', ''new'', ''latest''] query
            \<longrightarrow> search_by_date_context fs now query dirs =
                  Inr (filter (\<lambda>p. nonempty_file fs p \<and> modified_after fs (now - 7 * day) p)
                         (scanned fs dirs)))
         \<and> (\<not> has_word [''today'', ''recent'', ''new'', ''latest''] query
            \<and> has_word [''old'', ''archive'', ''backup''] query
            \<longrightarrow> search_by_date_context fs now query dirs =
                  Inr (filter (\<lambda>p. nonempty_file fs p \<and> modified_before fs (now - 90 * day) p)
                         (scanned fs dirs)))
         \<and> (has_word [''large'', ''big'', ''huge''] query
            \<longrightarrow> search_by_size_context fs query dirs =
                  Inr (filter (size_above fs (10 * 1024 * 1024)) (scanned fs dirs)))
         \<and> (\<not> has_word [''large'', ''big'', ''huge''] query \<and> has_word [''small'', ''tiny''] query
            \<longrightarrow> search_by_size_context fs query dirs =
                  Inr (filter (size_between fs 0 (100 * 1024)) (scanned fs dirs)))"
  using search_by_file_type_eq[OF assms] search_by_date_context_recent[OF assms]
    search_by_date_context_old[OF assms] search_by_size_context_large[OF assms]
    search_by_size_context_small[OF assms]
  by blast

lemma ex_scanned:
  "scanned ex_fs (default_dirs ex_home) =
     [ex_report, joinpath (joinpath ex_home ''Documents'') ''old'', ex_backup,
      joinpath (joinpath ex_home ''Documents'') ''work'', ex_notes, ex_photo, ex_empty]"
  by code_simp

lemma ex_stat_ok:
  "\<forall>p\<in>set (scanned ex_fs (default_dirs ex_home)). is_file ex_fs p \<longrightarrow> stat ex_fs p \<noteq> None"
  unfolding ex_scanned by code_simp

theorem first_bucket_wins_witness:
  "search_by_file_type ex_fs ''old new photo movie big tiny'' (default_dirs ex_home)
     = Inr [ex_photo]
   \<and> search_by_date_context ex_fs ex_now ''old new photo movie big tiny'' (default_dirs ex_home)
     = Inr [ex_report]
   \<and> search_by_size_context ex_fs ''old new photo movie big tiny'' (default_dirs ex_home)
     = Inr []
   \<and> search_by_date_context ex_fs ex_now ''tiny backup'' (default_dirs ex_home)
     = Inr [ex_photo]
   \<and> search_by_size_context ex_fs ''tiny backup'' (default_dirs ex_home)
     = Inr [ex_report, ex_backup, ex_notes, ex_photo]"
proof -
  let ?q = "''old new photo movie big tiny''"
  let ?r = "''tiny backup''"
  note first = first_bucket_wins [OF ex_stat_ok, of ?q ex_now]
  note second = first_bucket_wins [OF ex_stat_ok, of ?r ex_now]
  have k: "0 < length type_keywords \<and> contains (fst (type_keywords ! 0)) ?q
           \<and> (\<forall>j<0. \<not> contains (fst (type_keywords ! j)) ?q)"
    by (simp add: type_keywords_def)
  have w1: "has_word [''today'', ''recent'', ''new'', ''latest''] ?q"
    and w2: "has_word [''large'', ''big'', ''huge''] ?q"
    and w3: "\<not> has_word [''today'', ''recent'', ''new'', ''latest''] ?r
             \<and> has_word [''old'', ''archive'', ''backup''] ?r"
    and w4: "\<not> has_word [''large'', ''big'', ''huge''] ?r \<and> has_word [''small'', ''tiny''] ?r"
    by code_simp+
  have v1: "filter (\<lambda>p. nonempty_file ex_fs p \<and> categorize_file p = snd (type_keywords ! 0))
              (scanned ex_fs (default_dirs ex_home)) = [ex_photo]"
    unfolding ex_scanned by code_simp
  have v2: "filter (\<lambda>p. nonempty_file ex_fs p \<and> modified_after ex_fs (ex_now - 7 * day) p)
              (scanned ex_fs (default_dirs ex_home)) = [ex_report]"
    unfolding ex_scanned by code_simp
  have v3: "filter (size_above ex_fs (10 * 1024 * 1024)) (scanned ex_fs (default_dirs ex_home)) = []"
    unfolding ex_scanned by code_simp
  have v4: "filter (\<lambda>p. nonempty_file ex_fs p \<and> modified_before ex_fs (ex_now - 90 * day) p)
              (scanned ex_fs (default_dirs ex_home)) = [ex_photo]"
    unfolding ex_scanned by code_simp
  have v5: "filter (size_between ex_fs 0 (100 * 1024)) (scanned ex_fs (default_dirs ex_home))
              = [ex_report, ex_backup, ex_notes, ex_photo]"
    unfolding ex_scanned by code_simp
  from first k have "search_by_file_type ex_fs ?q (default_dirs ex_home) = Inr [ex_photo]"
    unfolding v1 [symmetric] by blast
  moreover from first w1 have
    "search_by_date_context ex_fs ex_now ?q (default_dirs ex_home) = Inr [ex_report]"
    unfolding v2 [symmetric] by blast
  moreover from first w2 have "search_by_size_context ex_fs ?q (default_dirs ex_home) = Inr []"
    unfolding v3 [symmetric] by blast
  moreover from second w3 have
    "search_by_date_context ex_fs ex_now ?r (default_dirs ex_home) = Inr [ex_photo]"
    unfolding v4 [symmetric] by blast
  moreover from second w4 have
    "search_by_size_context ex_fs ?r (default_dirs ex_home)
       = Inr [ex_report, ex_backup, ex_notes, ex_photo]"
    unfolding v5 [symmetric] by blast
  ultimately show ?thesis by blast
qed

section \<open>The empty query\<close>

lemma contains_Nil: "contains [] s"
  by (cases s) simp_all

lemma keyword_not_in_empty: "w \<noteq> [] \<Longrightarrow> \<not> contains w []"
  by simp

lemma empty_query_bonus:
  assumes "name p \<noteq> []"
  shows "match_bonus [] p = 5" "word_bonus [] p = 0"
  using assms by (simp_all add: match_bonus_def word_bonus_def contains_Nil lower_def split_def)

lemma preference_bonus_nonneg:
  assumes "\<forall>c pref. prefs c = Some pref \<longrightarrow> 0 \<le> confidence pref"
  shows "0 \<le> preference_bonus prefs p"
  using assms by (auto simp: preference_bonus_def split: option.splits)

lemma empty_query_scores:
  assumes "name p \<noteq> []" "nonempty_file fs p"
    and conf: "\<forall>c pref. prefs c = Some pref \<longrightarrow> 0 \<le> confidence pref"
  shows "(\<exists>s. score_file fs prefs now [] p = Inr s \<and> 5 \<le> s) \<and> 5 \<le> api_score_file fs now [] p"
proof -
  obtain st where st: "stat fs p = Some st"
    using assms(2) by (auto simp: nonempty_file_def split: option.splits)
  have "score_file fs prefs now [] p =
          Inr (5 + 0 + recency_bonus now (st_mtime st) + preference_bonus prefs p)"
    using score_file_eq[OF st, of prefs now "[]"] empty_query_bonus[OF assms(1)] by simp
  moreover have "api_score_file fs now [] p = 5 + 0 + recency_bonus now (st_mtime st)"
    using empty_query_bonus[OF assms(1)] by (simp add: api_score_file_eq st)
  ultimately show ?thesis
    using recency_bonus_bounds[of now "st_mtime st"] preference_bonus_nonneg[OF conf, of p]
    by auto
qed

lemma empty_query_other_strategies:
  "search_by_file_type fs [] dirs = Inr []"
  "search_by_date_context fs now [] dirs = Inr []"
  "search_by_size_context fs [] dirs = Inr []"
  by (simp_all add: search_by_file_type_def type_keywords_def search_by_date_context_def
      search_by_size_context_def)

lemma ranked_paths:
  fixes sc :: "path \<Rightarrow> rat"
  shows "fst ` set (sorted_by_score_reverse (filter (\<lambda>x. 0 < snd x) (map (\<lambda>p. (p, sc p)) files)))
           = {p \<in> set files. 0 < sc p}"
  by (force simp: set_sorted_by_score_reverse)

lemma empty_query_found:
  assumes stat: "\<forall>p\<in>set (scanned fs dirs). is_file fs p \<longrightarrow> stat fs p \<noteq> None"
  shows "\<exists>found. run_strategies fs now [] dirs = Inr found
           \<and> set found = {p \<in> set (scanned fs dirs). nonempty_file fs p}"
proof -
  let ?all = "filter (nonempty_file fs) (scanned fs dirs)"
  let ?text = "filter (\<lambda>p. text_file_below fs (1024 * 1024) p \<and> content_matches fs [] p)
                 (scanned fs dirs)"
  have by_name: "search_by_filename fs [] dirs = Inr ?all"
    using search_by_filename_eq[OF stat, of "[]"] by (simp add: contains_Nil)
  have "for_each_dir fs (\<lambda>search_dir. content_body fs []) dirs ([], []) =
          Inr ([] @ ?text, [] @ filter (text_file_below fs (1024 * 1024)) (scanned fs dirs))"
    using stat by (intro content_dirs_eq) simp
  then have by_content: "search_by_content_keywords fs [] dirs = Inr ?text"
    by (simp add: search_by_content_keywords_def search_by_content_keywords_io_def)
  have found: "run_strategies fs now [] dirs = Inr (?all @ ?text)"
    by (simp add: run_strategies_def by_name by_content empty_query_other_strategies)
  have "set ?text \<subseteq> set ?all"
    by (auto simp: text_file_below_def nonempty_file_def split: option.splits)
  then have "set (?all @ ?text) = {p \<in> set (scanned fs dirs). nonempty_file fs p}"
    by auto
  with found show ?thesis by blast
qed

lemma format_results_all:
  assumes "\<forall>x\<in>set xs. stat fs (fst x) \<noteq> None"
  shows "map full_path (format_results fs xs acc) = map full_path acc @ map (\<lambda>x. str (fst x)) xs
         \<and> map relevance_score (format_results fs xs acc) = map relevance_score acc @ map snd xs"
  using assms
proof (induction xs arbitrary: acc)
  case Nil
  then show ?case by simp
next
  case (Cons x xs)
  obtain p s where x: "x = (p, s)" by (cases x)
  obtain st where st: "stat fs p = Some st"
    using Cons.prems x by auto
  have rest: "\<forall>x\<in>set xs. stat fs (fst x) \<noteq> None"
    using Cons.prems by simp
  show ?case
    using Cons.IH[OF rest, of "acc @ [format_result p s st]"]
    by (simp add: x st format_result_def)
qed

text \<open>
  C10 (as amended). For the empty query, when \<open>stat\<close> succeeds on the regular files in
  scope, names are not empty and no learned confidence is negative: the filename strategy
  returns every non-empty regular file in scope; no name equals the query, each of these
  files gets the substring bonus 5 and no word bonus, so that its score is at least 5 in
  both rankers and it passes the filter of positive scores. The search of the
  command-line engine returns a ranked list that holds exactly the non-empty regular
  files in scope. In the web service the ranked list holds them all (one path for every
  path string), and the search returns the first twenty entries of the ranked list.
\<close>

theorem empty_query_results:
  assumes dirs: "dirs = (if file_paths = [] then default_dirs home else file_paths)"
    and stat: "\<forall>p\<in>set (scanned fs dirs). is_file fs p \<longrightarrow> stat fs p \<noteq> None"
    and names: "\<forall>p\<in>set (scanned fs dirs). name p \<noteq> []"
    and conf: "\<forall>c pref. prefs c = Some pref \<longrightarrow> 0 \<le> confidence pref"
  shows "search_by_filename fs [] dirs = Inr (filter (nonempty_file fs) (scanned fs dirs))
         \<and> (\<forall>p\<in>set (scanned fs dirs). nonempty_file fs p \<longrightarrow>
               lower (name p) \<noteq> [] \<and> match_bonus [] p = 5 \<and> word_bonus [] p = 0
               \<and> (\<exists>s. score_file fs prefs now [] p = Inr s \<and> 5 \<le> s)
               \<and> 5 \<le> api_score_file fs now [] p)
         \<and> (file_paths = [] \<longrightarrow>
               (\<exists>out. smart_file_search fs prefs home now [] = Inr out
                  \<and> fst ` set out = {p \<in> set (scanned fs dirs). nonempty_file fs p}))
         \<and> (\<exists>ranked results.
               api_ranked_files fs home now [] file_paths = Inr ranked
               \<and> fst ` set ranked \<subseteq> {p \<in> set (scanned fs dirs). nonempty_file fs p}
               \<and> str ` fst ` set ranked = str ` {p \<in> set (scanned fs dirs). nonempty_file fs p}
               \<and> api_smart_search fs home now [] file_paths = Inr results
               \<and> map full_path results = map (\<lambda>x. str (fst x)) (take 20 ranked)
               \<and> map relevance_score results = map snd (take 20 ranked))"
proof -
  let ?N = "{p \<in> set (scanned fs dirs). nonempty_file fs p}"
  have by_name: "search_by_filename fs [] dirs = Inr (filter (nonempty_file fs) (scanned fs dirs))"
    using search_by_filename_eq[OF stat, of "[]"] by (simp add: contains_Nil)
  have scores: "\<forall>p\<in>set (scanned fs dirs). nonempty_file fs p \<longrightarrow>
               lower (name p) \<noteq> [] \<and> match_bonus [] p = 5 \<and> word_bonus [] p = 0
               \<and> (\<exists>s. score_file fs prefs now [] p = Inr s \<and> 5 \<le> s)
               \<and> 5 \<le> api_score_file fs now [] p"
    using names empty_query_bonus empty_query_scores[OF _ _ conf] by (simp add: lower_def)
  obtain found where found: "run_strategies fs now [] dirs = Inr found" "set found = ?N"
    using empty_query_found[OF stat] by blast
  \<comment> \<open>the command-line engine\<close>
  have cli: "\<exists>out. smart_file_search fs prefs home now [] = Inr out \<and> fst ` set out = ?N"
    if "file_paths = []"
  proof -
    have run: "run_strategies fs now [] (default_dirs home) = Inr found"
      using found(1) dirs that by simp
    let ?u = "unique_loop found [] {}"
    have "set ?u = set ([] @ found)"
      using unique_loop_first_seen[of "{}" "[]" "[]" found] by simp
    then have set_u: "set ?u = ?N"
      using found(2) by simp
    have uniq: "unique_files fs home now [] = Inr ?u"
      using run by (simp add: unique_files_def lower_def)
    define sc where "sc p = (case score_file fs prefs now [] p of Inr v \<Rightarrow> v | Inl x \<Rightarrow> 0)" for p
    have sc: "\<forall>p\<in>set ?u. score_file fs prefs now [] p = Inr (sc p) \<and> 0 < sc p"
      using scores set_u by (fastforce simp: sc_def)
    then have "rank_search_results fs prefs now ?u [] =
            Inr (sorted_by_score_reverse (filter (\<lambda>x. 0 < snd x) (map (\<lambda>p. (p, sc p)) ?u)))"
      by (intro rank_search_results_eq) simp
    moreover have
      "fst ` set (sorted_by_score_reverse (filter (\<lambda>x. 0 < snd x) (map (\<lambda>p. (p, sc p)) ?u))) = ?N"
    proof -
      have "fst ` set (sorted_by_score_reverse (filter (\<lambda>x. 0 < snd x) (map (\<lambda>p. (p, sc p)) ?u)))
              = {p \<in> set ?u. 0 < sc p}"
        by (rule ranked_paths)
      also have "\<dots> = set ?u"
        using sc by blast
      finally show ?thesis using set_u by simp
    qed
    ultimately show ?thesis
      using uniq by (simp add: smart_file_search_def lower_def)
  qed
  \<comment> \<open>the web service\<close>
  let ?w = "api_unique_loop found [] {}"
  have "str ` set ?w = str ` set ([] @ found) \<and> set ?w \<subseteq> set ([] @ found)"
    using api_unique_loop_first_seen[of "{}" "[]" "[]" found] by simp
  then have set_w: "set ?w \<subseteq> ?N" "str ` set ?w = str ` ?N"
    using found(2) by simp_all
  have wuniq: "api_unique_files fs home now [] file_paths = Inr ?w"
    using found(1) dirs by (simp add: api_unique_files_def lower_def)
  let ?ranked = "sorted_by_score_reverse
                   (filter (\<lambda>x. 0 < snd x) (map (\<lambda>p. (p, api_score_file fs now [] p)) ?w))"
  have lower_Nil: "lower [] = []"
    by (simp add: lower_def)
  have ranked: "api_ranked_files fs home now [] file_paths = Inr ?ranked"
    by (simp only: api_ranked_files_def wuniq sum.case lower_Nil api_rank_search_results_eq)
  have pos: "\<forall>p\<in>set ?w. 0 < api_score_file fs now [] p"
    using scores set_w(1) by fastforce
  have paths: "fst ` set ?ranked = set ?w"
  proof -
    have "fst ` set ?ranked = {p \<in> set ?w. 0 < api_score_file fs now [] p}"
      by (rule ranked_paths)
    also have "\<dots> = set ?w"
      using pos by blast
    finally show ?thesis .
  qed
  have "\<forall>x\<in>set (take 20 ?ranked). stat fs (fst x) \<noteq> None"
  proof
    fix x assume "x \<in> set (take 20 ?ranked)"
    then have "x \<in> set ?ranked" by (rule in_set_takeD)
    then have "fst x \<in> ?N" using paths set_w(1) by blast
    then show "stat fs (fst x) \<noteq> None"
      by (auto simp: nonempty_file_def split: option.splits)
  qed
  then have fmt: "map full_path (format_results fs (take 20 ?ranked) [])
                    = map (\<lambda>x. str (fst x)) (take 20 ?ranked)
                  \<and> map relevance_score (format_results fs (take 20 ?ranked) [])
                    = map snd (take 20 ?ranked)"
    using format_results_all[of "take 20 ?ranked" fs "[]"] by simp
  have res: "api_smart_search fs home now [] file_paths
               = Inr (format_results fs (take 20 ?ranked) [])"
    using ranked by (simp add: api_smart_search_def)
  have p1: "fst ` set ?ranked \<subseteq> ?N"
    using paths set_w(1) by simp
  have p2: "str ` fst ` set ?ranked = str ` ?N"
    using paths set_w(2) by simp
  have web: "\<exists>ranked results.
               api_ranked_files fs home now [] file_paths = Inr ranked
               \<and> fst ` set ranked \<subseteq> ?N
               \<and> str ` fst ` set ranked = str ` ?N
               \<and> api_smart_search fs home now [] file_paths = Inr results
               \<and> map full_path results = map (\<lambda>x. str (fst x)) (take 20 ranked)
               \<and> map relevance_score results = map snd (take 20 ranked)"
    by (intro exI[of _ ?ranked] exI[of _ "format_results fs (take 20 ?ranked) []"] conjI
        ranked p1 p2 res fmt[THEN conjunct1] fmt[THEN conjunct2])
  have cli': "file_paths = [] \<longrightarrow>
               (\<exists>out. smart_file_search fs prefs home now [] = Inr out \<and> fst ` set out = ?N)"
    by (intro impI cli)
  show ?thesis
    by (intro conjI by_name scores cli' web)
qed

theorem empty_query_results_witness:
  "search_by_filename ex_fs [] (default_dirs ex_home)
     = Inr [ex_report, ex_backup, ex_notes, ex_photo]
   \<and> (\<exists>out. smart_file_search ex_fs ex_prefs ex_home ex_now [] = Inr out
         \<and> fst ` set out
             = {p \<in> set (scanned ex_fs (default_dirs ex_home)). nonempty_file ex_fs p})
   \<and> (\<exists>ranked results.
         api_ranked_files ex_fs ex_home ex_now [] [] = Inr ranked
         \<and> fst ` set ranked
             \<subseteq> {p \<in> set (scanned ex_fs (default_dirs ex_home)). nonempty_file ex_fs p}
         \<and> str ` fst ` set ranked
             = str ` {p \<in> set (scanned ex_fs (default_dirs ex_home)). nonempty_file ex_fs p}
         \<and> api_smart_search ex_fs ex_home ex_now [] [] = Inr results
         \<and> map full_path results = map (\<lambda>x. str (fst x)) (take 20 ranked)
         \<and> map relevance_score results = map snd (take 20 ranked))"
proof -
  have dirs: "default_dirs ex_home = (if ([] :: path list) = [] then default_dirs ex_home else [])"
    by simp
  have names: "\<forall>p\<in>set (scanned ex_fs (default_dirs ex_home)). name p \<noteq> []"
    unfolding ex_scanned by code_simp
  have conf: "\<forall>c pref. ex_prefs c = Some pref \<longrightarrow> 0 \<le> confidence pref"
    by (auto simp: ex_prefs_def split: if_splits)
  have v: "filter (nonempty_file ex_fs) (scanned ex_fs (default_dirs ex_home))
             = [ex_report, ex_backup, ex_notes, ex_photo]"
    unfolding ex_scanned by code_simp
  note all = empty_query_results [OF dirs ex_stat_ok names conf, of ex_now]
  have by_name: "search_by_filename ex_fs [] (default_dirs ex_home)
                   = Inr [ex_report, ex_backup, ex_notes, ex_photo]"
    using all [THEN conjunct1] unfolding v .
  note cli = all [THEN conjunct2, THEN conjunct2, THEN conjunct1, THEN mp, OF refl]
  note web = all [THEN conjunct2, THEN conjunct2, THEN conjunct2]
  show ?thesis
    by (intro conjI by_name cli web)
qed

theorem web_empty_query_counterexample:
  "api_smart_search many_fs ex_home ex_now [] [[''d'']] = Inr many_results
   \<and> length many_results = 20
   \<and> ''/d/u'' \<notin> set (map full_path many_results)
   \<and> search_by_filename many_fs [] [[''d'']] = Inr many_files
   \<and> filter (nonempty_file many_fs) (scanned many_fs [[''d'']]) = many_files
   \<and> length many_files = 21
   \<and> [''d'', ''u''] \<in> set many_files \<and> str [''d'', ''u''] = ''/d/u''"
  by code_simp

section \<open>Files that cannot be read\<close>

lemma analyze_files_total:
  "\<exists>a'. for_each_file (analyze_body fs scan_dir) ps a = Inr a'"
proof (induction ps arbitrary: a)
  case Nil
  then show ?case by simp
next
  case (Cons p ps)
  have "\<exists>a1. analyze_body fs scan_dir p a = Inr a1"
    by (simp add: analyze_body_def Let_def split: option.splits)
  then obtain a1 where "analyze_body fs scan_dir p a = Inr a1" ..
  then show ?case using Cons.IH[of a1] by simp
qed

lemma scan_all_total: "\<exists>a. scan_all fs scan_dirs = Inr a"
proof -
  have "\<exists>a'. for_each_dir fs (analyze_body fs) scan_dirs a = Inr a'" for a
  proof (induction scan_dirs arbitrary: a)
    case Nil
    then show ?case by simp
  next
    case (Cons d ds)
    obtain a1 where "for_each_file (analyze_body fs d) (rglob fs d) a = Inr a1"
      using analyze_files_total by blast
    then show ?case using Cons.IH[of a1] Cons.IH[of a] by simp
  qed
  then show ?thesis by (simp add: scan_all_def)
qed

text \<open>
  C9. A directory lists \<open>gone.txt\<close> and \<open>kept.txt\<close>; \<open>gone.txt\<close> is deleted after
  \<open>is_file\<close> has answered \<open>True\<close>, so that \<open>stat\<close> raises for it. The filename
  strategy, the content strategy and with them the whole search raise \<open>OSError\<close> instead
  of skipping the file and returning \<open>kept.txt\<close>; the analysis scan of the same
  directory, which catches the error, skips the file and counts \<open>kept.txt\<close>.
\<close>

theorem stat_failure_aborts_search:
  "search_by_filename vanish_fs ''kept'' (default_dirs ex_home) = Inl OSError
   \<and> search_by_content_keywords vanish_fs ''kept'' (default_dirs ex_home) = Inl OSError
   \<and> smart_file_search vanish_fs Map.empty ex_home ex_now ''kept'' = Inl OSError
   \<and> api_smart_search vanish_fs ex_home ex_now ''kept'' [] = Inl OSError
   \<and> scan_all vanish_fs (default_dirs ex_home) =
       Inr \<lparr>file_stats = [(Documents, 1)], size_stats = [(Documents, 10)],
            date_patterns = [(Documents, [99 * day])],
            location_patterns = [(Documents, [''Documents''])],
            total_files = 1, total_size = 10\<rparr>"
  by code_simp

section \<open>Learning the preferred locations\<close>

lemma dd_update_keys: "fst ` set (dd_update k d f kvs) = insert k (fst ` set kvs)"
  by (induction k d f kvs rule: dd_update.induct) auto

lemma dd_update_distinct:
  "distinct (map fst kvs) \<Longrightarrow> distinct (map fst (dd_update k d f kvs))"
  by (induction kvs) (auto simp: dd_update_keys)

lemma dd_update_map_of:
  "map_of (dd_update k d f kvs) =
     (map_of kvs)(k \<mapsto> f (case map_of kvs k of None \<Rightarrow> d | Some v \<Rightarrow> v))"
  by (induction kvs) (auto simp: fun_eq_iff)

lemma counter_distinct:
  "distinct (map fst acc) \<Longrightarrow> distinct (map fst (counter xs acc))"
  by (induction xs arbitrary: acc) (auto simp: dd_update_distinct)

lemma counter_map_of:
  "map_of (counter xs acc) y =
     (if y \<in> set xs \<or> map_of acc y \<noteq> None
      then Some (count_list xs y + (case map_of acc y of None \<Rightarrow> 0 | Some n \<Rightarrow> n))
      else None)"
  by (induction xs arbitrary: acc) (auto simp: dd_update_map_of split: option.splits)

lemma counter_entries:
  "(y, n) \<in> set (counter xs []) \<longleftrightarrow> y \<in> set xs \<and> n = count_list xs y"
proof -
  have "distinct (map fst (counter xs []))"
    by (rule counter_distinct) simp
  then have "(y, n) \<in> set (counter xs []) \<longleftrightarrow> map_of (counter xs []) y = Some n"
    by simp
  then show ?thesis
    by (auto simp: counter_map_of)
qed

lemma max_by_count_max:
  "max_by_count best items \<in> set (best # items)
   \<and> (\<forall>item\<in>set (best # items). snd item \<le> snd (max_by_count best items))"
proof (induction items arbitrary: best)
  case Nil
  then show ?case by simp
next
  case (Cons item items)
  show ?case
    using Cons.IH[of "if snd item > snd best then item else best"]
    by (auto split: if_splits)
qed

lemma most_common1_mode:
  assumes "xs \<noteq> []"
  shows "\<exists>m. most_common1 xs = Inr (m, count_list xs m) \<and> m \<in> set xs
           \<and> (\<forall>y. count_list xs y \<le> count_list xs m)"
proof -
  obtain x where "x \<in> set xs" using assms by (cases xs) auto
  then have "(x, count_list xs x) \<in> set (counter xs [])"
    by (simp add: counter_entries)
  then obtain item items where c: "counter xs [] = item # items"
    by (cases "counter xs []") auto
  let ?r = "max_by_count item items"
  have r: "?r \<in> set (counter xs [])" "\<forall>i\<in>set (counter xs []). snd i \<le> snd ?r"
    using max_by_count_max[of item items] c by simp_all
  obtain m n where mn: "?r = (m, n)" by (cases ?r)
  have m: "m \<in> set xs" "n = count_list xs m"
    using r(1) mn counter_entries[of m n xs] by simp_all
  have "count_list xs y \<le> count_list xs m" for y
  proof (cases "y \<in> set xs")
    case True
    then have "(y, count_list xs y) \<in> set (counter xs [])"
      by (simp add: counter_entries)
    then show ?thesis using r(2) mn m by fastforce
  next
    case False
    then show ?thesis by (simp add: count_list_0_iff)
  qed
  then show ?thesis
    using c mn m by (auto simp: most_common1_def)
qed

lemma recorded_dd_update:
  "recorded (dd_update k [] (\<lambda>l. l @ [x]) patterns) c
     = recorded patterns c @ (if c = k then [x] else [])"
  by (simp add: recorded_def dd_update_map_of split: option.splits)

lemma analyze_body_locations:
  assumes "analyze_body fs d p a = Inr a'"
  shows "recorded (location_patterns a') c =
           recorded (location_patterns a) c
             @ (if observed fs p \<and> categorize_file p = c then [name d] else [])"
    and "distinct (map fst (location_patterns a)) \<Longrightarrow> distinct (map fst (location_patterns a'))"
  using assms
  by (auto simp: analyze_body_def observed_def Let_def recorded_dd_update dd_update_distinct
      split: if_splits option.splits)

lemma analyze_files_locations:
  assumes "for_each_file (analyze_body fs d) ps a = Inr a'"
  shows "recorded (location_patterns a') c =
           recorded (location_patterns a) c
             @ map (\<lambda>p. name d) (filter (\<lambda>p. observed fs p \<and> categorize_file p = c) ps)
         \<and> (distinct (map fst (location_patterns a)) \<longrightarrow> distinct (map fst (location_patterns a')))"
  using assms
proof (induction ps arbitrary: a)
  case Nil
  then show ?case by simp
next
  case (Cons p ps)
  obtain a1 where a1: "analyze_body fs d p a = Inr a1"
    using analyze_files_total[of fs d "[p]" a] by (auto split: sum.splits)
  then have rest: "for_each_file (analyze_body fs d) ps a1 = Inr a'"
    using Cons.prems by simp
  show ?case
    using Cons.IH[OF rest] analyze_body_locations(1)[OF a1, of c] analyze_body_locations(2)[OF a1]
    by auto
qed

lemma analyze_dirs_locations:
  assumes "for_each_dir fs (analyze_body fs) dirs a = Inr a'"
  shows "recorded (location_patterns a') c =
           recorded (location_patterns a) c @ observed_locations fs dirs c
         \<and> (distinct (map fst (location_patterns a)) \<longrightarrow> distinct (map fst (location_patterns a')))"
  using assms
proof (induction dirs arbitrary: a)
  case Nil
  then show ?case by (simp add: observed_locations_def)
next
  case (Cons d dirs)
  show ?case
  proof (cases "exists fs d")
    case True
    obtain a1 where a1: "for_each_file (analyze_body fs d) (rglob fs d) a = Inr a1"
      using analyze_files_total by blast
    then have rest: "for_each_dir fs (analyze_body fs) dirs a1 = Inr a'"
      using Cons.prems True by simp
    show ?thesis
      using Cons.IH[OF rest] analyze_files_locations[OF a1, of c] True
      by (auto simp: observed_locations_def observed_in_def)
  next
    case False
    then have rest: "for_each_dir fs (analyze_body fs) dirs a = Inr a'"
      using Cons.prems by simp
    show ?thesis
      using Cons.IH[OF rest] False by (simp add: observed_locations_def)
  qed
qed

lemma scan_all_locations:
  assumes "scan_all fs dirs = Inr a"
  shows "recorded (location_patterns a) c = observed_locations fs dirs c"
    and "distinct (map fst (location_patterns a))"
  using analyze_dirs_locations[of fs dirs analysis_start a c] assms
  by (simp_all add: scan_all_def analysis_start_def recorded_def)

lemma learn_locations_other:
  "c \<notin> fst ` set patterns \<Longrightarrow> learn_locations patterns now prefs = Inr prefs' \<Longrightarrow>
     prefs' c = prefs c"
proof (induction patterns arbitrary: prefs)
  case Nil
  then show ?case by simp
next
  case (Cons entry patterns)
  obtain c0 locs where entry: "entry = (c0, locs)" by (cases entry)
  have c: "c \<noteq> c0" "c \<notin> fst ` set patterns"
    using Cons.prems(1) entry by auto
  show ?case
  proof (cases "locs = []")
    case True
    then show ?thesis using Cons.prems(2) Cons.IH[OF c(2)] entry by simp
  next
    case False
    then obtain m where m: "most_common1 locs = Inr (m, count_list locs m)"
      using most_common1_mode by blast
    then show ?thesis
      using Cons.prems(2) Cons.IH[OF c(2)] entry False c(1) by fastforce
  qed
qed

lemma learn_locations_learned:
  assumes "distinct (map fst patterns)"
  shows "\<exists>prefs'. learn_locations patterns now prefs = Inr prefs'
           \<and> (\<forall>c. recorded patterns c = [] \<longrightarrow> prefs' c = prefs c)
           \<and> (\<forall>c. recorded patterns c \<noteq> [] \<longrightarrow>
                 (\<exists>m. prefs' c =
                        Some \<lparr>preferred_location = m,
                              confidence = of_nat (count_list (recorded patterns c) m)
                                           / of_nat (length (recorded patterns c)),
                              learned_on = now\<rparr>
                      \<and> m \<in> set (recorded patterns c)
                      \<and> (\<forall>l. count_list (recorded patterns c) l
                                \<le> count_list (recorded patterns c) m)))"
  using assms
proof (induction patterns arbitrary: prefs)
  case Nil
  then show ?case by (simp add: recorded_def)
next
  case (Cons entry patterns)
  obtain c0 locs where entry: "entry = (c0, locs)" by (cases entry)
  have d: "distinct (map fst patterns)" and fresh: "c0 \<notin> fst ` set patterns"
    using Cons.prems entry by auto
  have rec0: "recorded (entry # patterns) c0 = locs"
    and rec: "\<And>c. c \<noteq> c0 \<Longrightarrow> recorded (entry # patterns) c = recorded patterns c"
    by (simp_all add: recorded_def entry)
  define prefs1 where "prefs1 =
    (if locs = [] then prefs
     else prefs(c0 \<mapsto> \<lparr>preferred_location = fst (projr (most_common1 locs)),
                          confidence = of_nat (snd (projr (most_common1 locs)))
                                       / of_nat (length locs),
                          learned_on = now\<rparr>))"
  have step: "learn_locations (entry # patterns) now prefs = learn_locations patterns now prefs1"
  proof (cases "locs = []")
    case True
    then show ?thesis by (simp add: entry prefs1_def)
  next
    case False
    then obtain m where "most_common1 locs = Inr (m, count_list locs m)"
      using most_common1_mode by blast
    then show ?thesis using False by (simp add: entry prefs1_def)
  qed
  obtain prefs' where p': "learn_locations patterns now prefs1 = Inr prefs'"
    and keep: "\<forall>c. recorded patterns c = [] \<longrightarrow> prefs' c = prefs1 c"
    and learned: "\<forall>c. recorded patterns c \<noteq> [] \<longrightarrow>
                 (\<exists>m. prefs' c =
                        Some \<lparr>preferred_location = m,
                              confidence = of_nat (count_list (recorded patterns c) m)
                                           / of_nat (length (recorded patterns c)),
                              learned_on = now\<rparr>
                      \<and> m \<in> set (recorded patterns c)
                      \<and> (\<forall>l. count_list (recorded patterns c) l
                                \<le> count_list (recorded patterns c) m))"
    using Cons.IH[OF d, of prefs1] by blast
  have at0: "prefs' c0 = prefs1 c0"
    using learn_locations_other[OF fresh p'] .
  have goal_keep: "prefs' c = prefs c" if "recorded (entry # patterns) c = []" for c
  proof (cases "c = c0")
    case True
    then have "locs = []" using that rec0 by simp
    then show ?thesis using at0 True by (simp add: prefs1_def)
  next
    case False
    then have "recorded patterns c = []" using that rec by simp
    then show ?thesis using keep False by (simp add: prefs1_def)
  qed
  have goal_learned: "\<exists>m. prefs' c =
                        Some \<lparr>preferred_location = m,
                              confidence = of_nat (count_list (recorded (entry # patterns) c) m)
                                           / of_nat (length (recorded (entry # patterns) c)),
                              learned_on = now\<rparr>
                      \<and> m \<in> set (recorded (entry # patterns) c)
                      \<and> (\<forall>l. count_list (recorded (entry # patterns) c) l
                                \<le> count_list (recorded (entry # patterns) c) m)"
    if "recorded (entry # patterns) c \<noteq> []" for c
  proof (cases "c = c0")
    case True
    then have ne: "locs \<noteq> []" using that rec0 by simp
    then obtain m where m: "most_common1 locs = Inr (m, count_list locs m)" "m \<in> set locs"
      "\<forall>y. count_list locs y \<le> count_list locs m"
      using most_common1_mode by blast
    have "prefs' c0 = Some \<lparr>preferred_location = m,
                            confidence = of_nat (count_list locs m) / of_nat (length locs),
                            learned_on = now\<rparr>"
      using at0 ne m(1) by (simp add: prefs1_def)
    then show ?thesis using True rec0 m(2,3) by auto
  next
    case False
    then show ?thesis using that rec learned by simp
  qed
  show ?case
    using step p' goal_keep goal_learned by auto
qed

lemma learn_dates_total: "\<exists>patterns'. learn_dates dates now patterns = Inr patterns'"
proof (induction dates arbitrary: patterns)
  case Nil
  then show ?case by simp
next
  case (Cons entry dates)
  obtain c ds where entry: "entry = (c, ds)" by (cases entry)
  show ?case
  proof (cases "ds = []")
    case True
    then show ?thesis using Cons.IH entry by simp
  next
    case False
    then have "map hour ds \<noteq> []" by simp
    then obtain m where "most_common1 (map hour ds) = Inr (m, count_list (map hour ds) m)"
      using most_common1_mode by blast
    then show ?thesis using Cons.IH entry False by simp
  qed
qed

text \<open>
  C5 (as amended). After an analysis pass, which always completes, every category with
  at least one observed file (a regular file whose size is not 0) has a preference
  whose preferred location is a most frequent name among the names of the scanned
  directories (\<open>Documents\<close>, \<open>Pictures\<close>, ...) under which the observed files of the
  category were found, and whose confidence is the frequency of that name divided by the
  number of observed files of the category.
\<close>

theorem learned_preference_is_modal_scan_dir:
  assumes "observed_locations fs (default_dirs home) c \<noteq> []"
  shows "\<exists>memory' a pref.
           analyze_file_system fs home now memory = Inr (memory', a)
           \<and> organization_preferences memory' c = Some pref
           \<and> preferred_location pref \<in> set (observed_locations fs (default_dirs home) c)
           \<and> (\<forall>l. count_list (observed_locations fs (default_dirs home) c) l
                    \<le> count_list (observed_locations fs (default_dirs home) c)
                         (preferred_location pref))
           \<and> confidence pref =
               of_nat (count_list (observed_locations fs (default_dirs home) c)
                         (preferred_location pref))
               / of_nat (length (observed_locations fs (default_dirs home) c))"
proof -
  let ?locs = "observed_locations fs (default_dirs home) c"
  obtain a where a: "scan_all fs (default_dirs home) = Inr a"
    using scan_all_total by blast
  have rec: "recorded (location_patterns a) c = ?locs"
    and dist: "distinct (map fst (location_patterns a))"
    using scan_all_locations[OF a] by simp_all
  obtain prefs' where prefs': "learn_locations (location_patterns a) now
                                 (organization_preferences memory) = Inr prefs'"
    and learned: "\<forall>c. recorded (location_patterns a) c \<noteq> [] \<longrightarrow>
                 (\<exists>m. prefs' c =
                        Some \<lparr>preferred_location = m,
                              confidence = of_nat (count_list (recorded (location_patterns a) c) m)
                                           / of_nat (length (recorded (location_patterns a) c)),
                              learned_on = now\<rparr>
                      \<and> m \<in> set (recorded (location_patterns a) c)
                      \<and> (\<forall>l. count_list (recorded (location_patterns a) c) l
                                \<le> count_list (recorded (location_patterns a) c) m))"
    using learn_locations_learned[OF dist, of now "organization_preferences memory"] by blast
  obtain m where m: "prefs' c = Some \<lparr>preferred_location = m,
                              confidence = of_nat (count_list ?locs m) / of_nat (length ?locs),
                              learned_on = now\<rparr>"
    "m \<in> set ?locs" "\<forall>l. count_list ?locs l \<le> count_list ?locs m"
    using learned rec assms by (metis (no_types, lifting))
  obtain patterns' where patterns': "learn_dates (date_patterns a) now (file_patterns memory)
                                       = Inr patterns'"
    using learn_dates_total by blast
  let ?memory' = "memory\<lparr>organization_preferences := prefs', file_patterns := patterns'\<rparr>"
  have "analyze_file_system fs home now memory = Inr (?memory', a)"
    using a prefs' patterns'
    by (simp add: analyze_file_system_def learn_organization_patterns_def)
  moreover have "organization_preferences ?memory' c =
                   Some \<lparr>preferred_location = m,
                         confidence = of_nat (count_list ?locs m) / of_nat (length ?locs),
                         learned_on = now\<rparr>"
    using m(1) by simp
  ultimately show ?thesis
    using m(2,3) by fastforce
qed

theorem learned_preference_is_modal_scan_dir_witness:
  "\<exists>memory' a pref.
      analyze_file_system ex_fs ex_home ex_now no_memory = Inr (memory', a)
      \<and> organization_preferences memory' Documents = Some pref
      \<and> preferred_location pref \<in> set [''Documents'', ''Documents'']
      \<and> (\<forall>l. count_list [''Documents'', ''Documents''] l
               \<le> count_list [''Documents'', ''Documents''] (preferred_location pref))
      \<and> confidence pref =
          of_nat (count_list [''Documents'', ''Documents''] (preferred_location pref))
          / of_nat (length [''Documents'', ''Documents''])"
proof -
  have locs: "observed_locations ex_fs (default_dirs ex_home) Documents
                = [''Documents'', ''Documents'']"
    by code_simp
  then have ne: "observed_locations ex_fs (default_dirs ex_home) Documents \<noteq> []"
    by simp
  from learned_preference_is_modal_scan_dir [OF ne, of ex_now no_memory] show ?thesis
    unfolding locs .
qed

text \<open>
  The one observed file of category \<open>Other\<close> lies in \<open>Documents/old\<close>: the name of its
  immediate parent directory is \<open>old\<close>, and the analysis learns \<open>Documents\<close>.
\<close>

theorem immediate_parent_counterexample:
  "\<not> isl (analyze_file_system ex_fs ex_home ex_now no_memory)
   \<and> organization_preferences
       (fst (projr (analyze_file_system ex_fs ex_home ex_now no_memory))) Other
     = Some \<lparr>preferred_location = ''Documents'', confidence = 1, learned_on = ex_now\<rparr>
   \<and> observed_parents ex_fs (default_dirs ex_home) Other = [''old'']"
  by code_simp

end
